theory Spec2Isabelle
  imports Main
begin

section \<open>Text, characters and exceptions\<close>

text \<open>
  A Python \<open>str\<close> is a sequence of Unicode code points: it is modelled as a list of
  integers, \<open>ascii\<close> turns a literal into such a list.  Exceptions are values: a
  computation that can raise returns \<open>exn + 'a\<close>, with \<open>Inl\<close> the exception raised.
\<close>

type_synonym ustr = "int list"

definition ascii :: "string \<Rightarrow> ustr" where
  "ascii s = map of_char s"

datatype exn =
    ValueError
  | UnicodeEncodeError
  | RequestException
  | HTTPError
  | ParserRejectedMarkup
  | HTTPException nat
  | NotModelled

text \<open>
  What the interpreter's Unicode database says depends on its version: the decimal digits
  (category Nd, the characters \<open>\d\<close> matches and \<open>int\<close> reads) with their values, and
  \<open>str.lower\<close>.  Both are parameters of the model.  The facts used about them hold in every
  version: \<open>0\<close> to \<open>9\<close> are decimal digits with their values, no whitespace character is a
  decimal digit, and the empty text is its own lower case.
\<close>

record unicode =
  decimal :: "int \<Rightarrow> nat option"
  lowercase :: "ustr \<Rightarrow> ustr"

text \<open>
  \<open>\s\<close> of module \<open>re\<close> and the characters \<open>str.strip\<close> removes (\<open>str.isspace\<close>): tab to
  carriage return, the separators 28 to 31, the space, NEL, the no-break space and the
  Unicode spaces U+1680, U+2000 to U+200A, U+2028, U+2029, U+202F, U+205F and U+3000.
\<close>

definition isspace :: "int \<Rightarrow> bool" where
  "isspace c \<longleftrightarrow>
     (9 \<le> c \<and> c \<le> 13) \<or> (28 \<le> c \<and> c \<le> 32) \<or> c = 133 \<or> c = 160 \<or> c = 5760 \<or>
     (8192 \<le> c \<and> c \<le> 8202) \<or> c = 8232 \<or> c = 8233 \<or> c = 8239 \<or> c = 8287 \<or> c = 12288"

text \<open>\<open>\d\<close> of module \<open>re\<close> on text: any Unicode decimal digit.\<close>

definition is_digit :: "unicode \<Rightarrow> int \<Rightarrow> bool" where
  "is_digit U c \<longleftrightarrow> decimal U c \<noteq> None"

definition wf_unicode :: "unicode \<Rightarrow> bool" where
  "wf_unicode U \<longleftrightarrow>
     (\<forall>c. 48 \<le> c \<and> c \<le> 57 \<longrightarrow> decimal U c = Some (nat (c - 48))) \<and>
     (\<forall>c. isspace c \<longrightarrow> decimal U c = None) \<and>
     lowercase U [] = []"

text \<open>The digits \<open>0\<close> to \<open>9\<close>, the only ones \<open>datetime.fromisoformat\<close> reads.\<close>

definition ascii_digit :: "int \<Rightarrow> bool" where
  "ascii_digit c \<longleftrightarrow> 48 \<le> c \<and> c \<le> 57"

text \<open>The class \<open>[a-z\<aa>\<auml>\<ouml>]\<close> of the Swedish pattern (\<open>\<aa>\<close> = 229, \<open>\<auml>\<close> = 228, \<open>\<ouml>\<close> = 246).\<close>

definition is_swedish_letter :: "int \<Rightarrow> bool" where
  "is_swedish_letter c \<longleftrightarrow> (97 \<le> c \<and> c \<le> 122) \<or> c = 228 \<or> c = 229 \<or> c = 246"

text \<open>\<open>str.strip()\<close>: leading and trailing whitespace removed.\<close>

definition strip :: "ustr \<Rightarrow> ustr" where
  "strip s = rev (dropWhile isspace (rev (dropWhile isspace s)))"

text \<open>\<open>s.startswith(p)\<close>.\<close>

definition startswith :: "ustr \<Rightarrow> ustr \<Rightarrow> bool" where
  "startswith s p \<longleftrightarrow> take (length p) s = p"

text \<open>\<open>sep.join(parts)\<close>.\<close>

fun join :: "ustr \<Rightarrow> ustr list \<Rightarrow> ustr" where
  "join sep [] = []"
| "join sep [x] = x"
| "join sep (x # y # ys) = x @ sep @ join sep (y # ys)"

text \<open>
  \<open>s.encode("utf-8")\<close> raises \<open>UnicodeEncodeError\<close> on a lone surrogate (U+D800 to
  U+DFFF); every other code point has an encoding.
\<close>

definition utf8_encodable :: "ustr \<Rightarrow> bool" where
  "utf8_encodable s \<longleftrightarrow> list_all (\<lambda>c. 0 \<le> c \<and> c \<le> 1114111 \<and> \<not> (55296 \<le> c \<and> c \<le> 57343)) s"

section \<open>Pattern search (module \<open>re\<close>)\<close>

text \<open>
  The three patterns of \<open>utils.py\<close> are sequences of character classes, each with a
  repetition range.  Such a pattern is a list of items (class, least count, greatest
  count or \<open>None\<close> for unbounded).  \<open>re_match\<close> is the backtracking matcher of \<open>re\<close> on
  these patterns: every item is greedy, it takes as many characters as it may and gives
  them back one at a time while the rest of the pattern fails.  The result holds the
  text each item consumed.  \<open>re_search\<close> tries the start positions from left to right.
\<close>

type_synonym re_item = "(int \<Rightarrow> bool) \<times> nat \<times> nat option"

fun first_some :: "('a \<Rightarrow> 'b option) \<Rightarrow> 'a list \<Rightarrow> 'b option" where
  "first_some f [] = None"
| "first_some f (x # xs) = (case f x of Some y \<Rightarrow> Some y | None \<Rightarrow> first_some f xs)"

primrec re_match :: "re_item list \<Rightarrow> ustr \<Rightarrow> ustr list option" where
  "re_match [] s = Some []"
| "re_match (it # its) s =
     (let cls = fst it; lo = fst (snd it); hi = snd (snd it);
          n = length (takeWhile cls s);
          top = (case hi of None \<Rightarrow> n | Some h \<Rightarrow> min h n)
      in first_some (\<lambda>k. map_option ((#) (take k s)) (re_match its (drop k s)))
           (rev [lo ..< Suc top]))"

fun re_search :: "re_item list \<Rightarrow> ustr \<Rightarrow> ustr list option" where
  "re_search p [] = re_match p []"
| "re_search p (c # cs) =
     (case re_match p (c # cs) of Some ps \<Rightarrow> Some ps | None \<Rightarrow> re_search p cs)"

definition is_char :: "int \<Rightarrow> int \<Rightarrow> bool" where
  "is_char a c \<longleftrightarrow> c = a"

text \<open>\<open>(\d{4}-\d{2}-\d{2})\<close>; group 1 is the text of all five items.  The hyphen is 45.\<close>

definition iso_re :: "unicode \<Rightarrow> re_item list" where
  "iso_re U = [(is_digit U, 4, Some 4), (is_char 45, 1, Some 1), (is_digit U, 2, Some 2),
               (is_char 45, 1, Some 1), (is_digit U, 2, Some 2)]"

text \<open>
  \<open>(\d{4}-\d{2}-\d{2})T\d{2}:\d{2}\<close>; group 1 is the text of the first five items.  \<open>T\<close> is
  84 and the colon 58.
\<close>

definition iso_time_re :: "unicode \<Rightarrow> re_item list" where
  "iso_time_re U = iso_re U @ [(is_char 84, 1, Some 1), (is_digit U, 2, Some 2),
                               (is_char 58, 1, Some 1), (is_digit U, 2, Some 2)]"

text \<open>\<open>(\d{1,2})\s+([a-z\<aa>\<auml>\<ouml>]+)\s+(\d{4})\<close>; the groups are items 0, 2 and 4.\<close>

definition swedish_re :: "unicode \<Rightarrow> re_item list" where
  "swedish_re U = [(is_digit U, 1, Some 2), (isspace, 1, None), (is_swedish_letter, 1, None),
                   (isspace, 1, None), (is_digit U, 4, Some 4)]"

section \<open>Calendar dates (module \<open>datetime\<close>)\<close>

record date =
  date_year :: nat
  date_month :: nat
  date_day :: nat

definition is_leap :: "nat \<Rightarrow> bool" where
  "is_leap y \<longleftrightarrow> y mod 4 = 0 \<and> (y mod 100 \<noteq> 0 \<or> y mod 400 = 0)"

definition days_in_month :: "nat \<Rightarrow> nat \<Rightarrow> nat" where
  "days_in_month y m =
     (if m = 2 then (if is_leap y then 29 else 28)
      else if m = 4 \<or> m = 6 \<or> m = 9 \<or> m = 11 then 30 else 31)"

text \<open>The dates \<open>datetime\<close> accepts: years \<open>MINYEAR = 1\<close> to \<open>MAXYEAR = 9999\<close>.\<close>

definition valid_date :: "nat \<Rightarrow> nat \<Rightarrow> nat \<Rightarrow> bool" where
  "valid_date y m d \<longleftrightarrow> 1 \<le> y \<and> y \<le> 9999 \<and> 1 \<le> m \<and> m \<le> 12 \<and> 1 \<le> d \<and> d \<le> days_in_month y m"

text \<open>\<open>datetime(y, m, d)\<close> raises \<open>ValueError\<close> on anything else.\<close>

definition datetime :: "nat \<Rightarrow> nat \<Rightarrow> nat \<Rightarrow> exn + date" where
  "datetime y m d =
     (if valid_date y m d then Inr \<lparr>date_year = y, date_month = m, date_day = d\<rparr> else Inl ValueError)"

text \<open>The value of a text of digits \<open>0\<close> to \<open>9\<close>, and the character of a digit.\<close>

definition ascii_val :: "int \<Rightarrow> nat" where
  "ascii_val c = nat (c - 48)"

definition digit_char :: "nat \<Rightarrow> int" where
  "digit_char n = 48 + int n"

definition ascii_digits_val :: "ustr \<Rightarrow> nat" where
  "ascii_digits_val s = foldl (\<lambda>a c. 10 * a + ascii_val c) 0 s"

text \<open>
  \<open>int(s)\<close> on a text: the decimal value of a non-empty text of Unicode decimal digits,
  each read by its digit value.  (\<open>int\<close> also reads signs, underscores and surrounding
  whitespace; the program applies it to matches of \<open>\d\<close> only.)
\<close>

definition digits_val :: "unicode \<Rightarrow> ustr \<Rightarrow> nat" where
  "digits_val U s = foldl (\<lambda>a c. 10 * a + (case decimal U c of None \<Rightarrow> 0 | Some v \<Rightarrow> v)) 0 s"

definition py_int :: "unicode \<Rightarrow> ustr \<Rightarrow> exn + nat" where
  "py_int U s = (if s \<noteq> [] \<and> list_all (is_digit U) s then Inr (digits_val U s) else Inl ValueError)"

text \<open>
  The shape of a date text: ten characters, four digits, a hyphen, two digits, a hyphen and
  two digits, for a given class of digits.  \<open>iso_shape\<close> is the shape \<open>YYYY-MM-DD\<close> written
  with the digits \<open>0\<close> to \<open>9\<close>; \<open>iso_match_shape\<close> is what \<open>\d{4}-\d{2}-\d{2}\<close> matches, the
  shape with any Unicode decimal digits.
\<close>

definition date_shape :: "(int \<Rightarrow> bool) \<Rightarrow> ustr \<Rightarrow> bool" where
  "date_shape D s \<longleftrightarrow>
     length s = 10 \<and> list_all D (take 4 s) \<and> s ! 4 = 45 \<and>
     list_all D (take 2 (drop 5 s)) \<and> s ! 7 = 45 \<and> list_all D (drop 8 s)"

definition iso_shape :: "ustr \<Rightarrow> bool" where
  "iso_shape s \<longleftrightarrow> date_shape ascii_digit s"

definition iso_match_shape :: "unicode \<Rightarrow> ustr \<Rightarrow> bool" where
  "iso_match_shape U s \<longleftrightarrow> date_shape (is_digit U) s"

text \<open>
  \<open>datetime.fromisoformat\<close>, which the program only applies to group 1 of the two ISO
  patterns, a text of ten characters: it reads the digits \<open>0\<close> to \<open>9\<close> only and raises
  \<open>ValueError\<close> on any other text of that length; the three numbers go to \<open>datetime\<close>.
\<close>

definition fromisoformat :: "ustr \<Rightarrow> exn + date" where
  "fromisoformat s =
     (if iso_shape s
      then datetime (ascii_digits_val (take 4 s)) (ascii_digits_val (take 2 (drop 5 s)))
             (ascii_digits_val (drop 8 s))
      else Inl ValueError)"

text \<open>A text of the shape \<open>YYYY-MM-DD\<close> denotes a valid calendar date.\<close>

definition iso_valid :: "ustr \<Rightarrow> bool" where
  "iso_valid m \<longleftrightarrow>
     valid_date (ascii_digits_val (take 4 m)) (ascii_digits_val (take 2 (drop 5 m)))
       (ascii_digits_val (drop 8 m))"

function str_nat :: "nat \<Rightarrow> ustr" where
  "str_nat n = (if n < 10 then [digit_char n] else str_nat (n div 10) @ [digit_char (n mod 10)])"
  by pat_completeness auto
termination
  by (relation "measure id") auto

definition zfill :: "nat \<Rightarrow> ustr \<Rightarrow> ustr" where
  "zfill w s = replicate (w - length s) 48 @ s"

text \<open>\<open>dt.date().isoformat()\<close>: \<open>"%04d-%02d-%02d"\<close>.\<close>

definition isoformat :: "date \<Rightarrow> ustr" where
  "isoformat dt =
     zfill 4 (str_nat (date_year dt)) @ [45] @ zfill 2 (str_nat (date_month dt)) @ [45] @
     zfill 2 (str_nat (date_day dt))"

section \<open>\<open>utils.py\<close>: the date normalizer\<close>

definition SWEDISH_MONTHS :: "(ustr \<times> nat) list" where
  "SWEDISH_MONTHS =
     [(ascii ''januari'', 1), (ascii ''februari'', 2), (ascii ''mars'', 3), (ascii ''april'', 4),
      (ascii ''maj'', 5), (ascii ''juni'', 6), (ascii ''juli'', 7), (ascii ''augusti'', 8),
      (ascii ''september'', 9), (ascii ''oktober'', 10), (ascii ''november'', 11),
      (ascii ''december'', 12)]"

text \<open>
  The block \<open>try: dt = datetime.fromisoformat(m.group(1)); return dt.date().isoformat()
  except Exception: pass\<close>; \<open>None\<close> stands for falling through.
\<close>

definition try_fromisoformat :: "ustr \<Rightarrow> ustr option" where
  "try_fromisoformat g = (case fromisoformat g of Inl e \<Rightarrow> None | Inr dt \<Rightarrow> Some (isoformat dt))"

definition try_parse_iso :: "unicode \<Rightarrow> ustr \<Rightarrow> exn + ustr option" where
  "try_parse_iso U date_text0 =
     (let date_text = strip date_text0;
          direct = (case re_search (iso_re U) date_text of
                      None \<Rightarrow> None
                    | Some ps \<Rightarrow> try_fromisoformat (concat (take 5 ps)))
      in case direct of
           Some found \<Rightarrow> Inr (Some found)
         | None \<Rightarrow>
             (case re_search (iso_time_re U) date_text of
                None \<Rightarrow> Inr None
              | Some ps \<Rightarrow> Inr (try_fromisoformat (concat (take 5 ps)))))"

text \<open>
  \<open>m.groups()\<close> are items 0, 2 and 4 of the match (a match of the five-item pattern has
  five items, see \<open>re_match_length\<close> below).  \<open>int\<close> and \<open>datetime\<close> stand inside the
  \<open>try\<close>: whatever they raise gives \<open>None\<close>.
\<close>

definition try_parse_swedish :: "unicode \<Rightarrow> ustr \<Rightarrow> exn + ustr option" where
  "try_parse_swedish U date_text =
     (case re_search (swedish_re U) (lowercase U date_text) of
        None \<Rightarrow> Inr None
      | Some ps \<Rightarrow>
          (let day_str = ps ! 0; month_name = ps ! 2; year_str = ps ! 4
           in case map_of SWEDISH_MONTHS month_name of
                None \<Rightarrow> Inr None
              | Some month \<Rightarrow>
                  if month = 0 then Inr None
                  else (case py_int U year_str of
                          Inl e \<Rightarrow> Inr None
                        | Inr y \<Rightarrow>
                            (case py_int U day_str of
                               Inl e \<Rightarrow> Inr None
                             | Inr d \<Rightarrow>
                                 (case datetime y month d of
                                    Inl e \<Rightarrow> Inr None
                                  | Inr dt \<Rightarrow> Inr (Some (isoformat dt)))))))"

text \<open>Python's truth value of an \<open>Optional[str]\<close>: neither \<open>None\<close> nor the empty string.\<close>

fun truthy :: "ustr option \<Rightarrow> bool" where
  "truthy None = False"
| "truthy (Some s) = (s \<noteq> [])"

text \<open>The loop \<open>for fn in (try_parse_iso, try_parse_swedish)\<close>.\<close>

fun first_parse :: "(ustr \<Rightarrow> exn + ustr option) list \<Rightarrow> ustr \<Rightarrow> exn + ustr option" where
  "first_parse [] date_text = Inr None"
| "first_parse (fn # fns) date_text =
     (case fn date_text of
        Inl e \<Rightarrow> Inl e
      | Inr found \<Rightarrow> if truthy found then Inr found else first_parse fns date_text)"

definition normalize_date :: "unicode \<Rightarrow> ustr \<Rightarrow> exn + ustr option" where
  "normalize_date U date_text =
     (if date_text = [] then Inr None
      else first_parse [try_parse_iso U, try_parse_swedish U] date_text)"

text \<open>
  The entries of the Unicode database the examples below use: the digits \<open>0\<close> to \<open>9\<close>, the
  Arabic-Indic digits U+0660 to U+0669, and the lower case of the Latin letters below 256.
\<close>

definition sample_unicode :: unicode where
  "sample_unicode =
     \<lparr>decimal = (\<lambda>c. if 48 \<le> c \<and> c \<le> 57 then Some (nat (c - 48))
                     else if 1632 \<le> c \<and> c \<le> 1641 then Some (nat (c - 1632)) else None),
      lowercase = map (\<lambda>c. if (65 \<le> c \<and> c \<le> 90) \<or> (192 \<le> c \<and> c \<le> 222 \<and> c \<noteq> 215)
                           then c + 32 else c)\<rparr>"

section \<open>The parser library (\<open>bs4\<close>)\<close>

text \<open>
  \<open>BeautifulSoup\<close> is a library: the functions of the program take it as the parameter
  \<open>L\<close>, a record of the operations they call, over a type \<open>'n\<close> of \<open>Tag\<close> objects (the
  \<open>BeautifulSoup\<close> object, the root of a parsed document, is one of them).  The constructor
  \<open>BeautifulSoup(markup, "html.parser")\<close> may raise; the other operations return.
  \<open>select_links\<close> stands for
  \<open>soup.select('a[href^="/nyheter/"], a[href^="https://www.linkoping.se/nyheter/"]')\<close>,
  \<open>tag_get\<close> for \<open>tag.get(key)\<close>, \<open>tag_parent\<close> for \<open>tag.parent\<close>, \<open>tag_name\<close> for
  \<open>tag.name\<close>, \<open>tag_find\<close> for \<open>tag.find(names)\<close>, \<open>tag_find_all\<close> for
  \<open>tag.find_all(names)\<close> and \<open>get_text\<close> for \<open>tag.get_text(separator)\<close>.  A \<open>Tag\<close> object is
  always true (\<open>Tag.__bool__\<close>), so a test \<open>if tag\<close> asks whether it is not \<open>None\<close>.
\<close>

record 'n bs4 =
  BeautifulSoup :: "ustr \<Rightarrow> exn + 'n"
  select_links :: "'n \<Rightarrow> 'n list"
  tag_get :: "'n \<Rightarrow> ustr \<Rightarrow> ustr option"
  tag_parent :: "'n \<Rightarrow> 'n option"
  tag_name :: "'n \<Rightarrow> ustr"
  tag_find :: "'n \<Rightarrow> ustr list \<Rightarrow> 'n option"
  tag_find_all :: "'n \<Rightarrow> ustr list \<Rightarrow> 'n list"
  get_text :: "'n \<Rightarrow> ustr \<Rightarrow> ustr"

section \<open>\<open>utils.py\<close>: the text cleaner\<close>

text \<open>\<open>re.sub(r"\s+", " ", text)\<close>: every run of whitespace becomes one space.\<close>

function sub_spaces :: "ustr \<Rightarrow> ustr" where
  "sub_spaces [] = []"
| "sub_spaces (c # cs) =
     (if isspace c then 32 # sub_spaces (dropWhile isspace cs) else c # sub_spaces cs)"
  by pat_completeness auto
termination
  by (relation "measure length") (auto simp: less_Suc_eq_le length_dropWhile_le)

definition normalize_whitespace :: "ustr \<Rightarrow> ustr" where
  "normalize_whitespace text = strip (sub_spaces text)"

definition clean_text :: "'n bs4 \<Rightarrow> ustr \<Rightarrow> exn + ustr" where
  "clean_text L html_or_text =
     (case BeautifulSoup L html_or_text of
        Inl e \<Rightarrow> Inl e
      | Inr soup \<Rightarrow> Inr (normalize_whitespace (get_text L soup [32])))"

text \<open>
  Two properties of a text: no two neighbouring whitespace characters, and no whitespace
  at either end.
\<close>

fun no_ws_pair :: "ustr \<Rightarrow> bool" where
  "no_ws_pair (a # b # cs) = (\<not> (isspace a \<and> isspace b) \<and> no_ws_pair (b # cs))"
| "no_ws_pair cs = True"

definition trimmed :: "ustr \<Rightarrow> bool" where
  "trimmed s \<longleftrightarrow> s = [] \<or> (\<not> isspace (hd s) \<and> \<not> isspace (last s))"

section \<open>\<open>pipeline.py\<close>: the listing extractor\<close>

definition BASE_URL :: ustr where
  "BASE_URL = ascii ''https://www.linkoping.se/nyheter/''"

definition absolute_url :: "ustr \<Rightarrow> ustr" where
  "absolute_url href =
     (if startswith href (ascii ''http'') then href else ascii ''https://www.linkoping.se'' @ href)"

text \<open>An item of the listing: the dictionary with the keys \<open>title\<close>, \<open>date_raw\<close> and \<open>url\<close>.\<close>

record item =
  item_title :: ustr
  item_date_raw :: ustr
  item_url :: ustr

text \<open>
  Lines 49 to 52: \<open>href = a.get("href"); if not href: continue; url = absolute_url(href)\<close>.
  The result is \<open>None\<close> where the loop continues.
\<close>

definition anchor_url :: "'n bs4 \<Rightarrow> 'n \<Rightarrow> ustr option" where
  "anchor_url L a =
     (case tag_get L a (ascii ''href'') of
        None \<Rightarrow> None
      | Some href \<Rightarrow> if href = [] then None else Some (absolute_url href))"

text \<open>
  The walk to the container, lines 57 to 63:
  \<open>container = a; for _ in range(3): if container.parent is None: break;
  container = container.parent; if container.name in {"article", "li", "div"}: break\<close>.
  The first argument of \<open>climb\<close> counts the rounds left.
\<close>

definition is_block :: "'n bs4 \<Rightarrow> 'n \<Rightarrow> bool" where
  "is_block L container \<longleftrightarrow>
     tag_name L container \<in> {ascii ''article'', ascii ''li'', ascii ''div''}"

fun climb :: "'n bs4 \<Rightarrow> nat \<Rightarrow> 'n \<Rightarrow> 'n" where
  "climb L 0 container = container"
| "climb L (Suc n) container =
     (case tag_parent L container of
        None \<Rightarrow> container
      | Some p \<Rightarrow> if is_block L p then p else climb L n p)"

definition find_container :: "'n bs4 \<Rightarrow> 'n \<Rightarrow> 'n" where
  "find_container L a = climb L 3 a"

text \<open>Line 76: \<open>time_el.get("datetime") or time_el.get_text(" ")\<close>.\<close>

definition time_text :: "'n bs4 \<Rightarrow> 'n \<Rightarrow> ustr" where
  "time_text L time_el =
     (case tag_get L time_el (ascii ''datetime'') of
        None \<Rightarrow> get_text L time_el [32]
      | Some d \<Rightarrow> if d \<noteq> [] then d else get_text L time_el [32])"

text \<open>
  The body of the loop from the container on (lines 56 to 86): the item of an anchor whose
  URL was not seen before, \<open>None\<close> when the title is empty (\<open>continue\<close>).  \<open>fallback\<close> is the
  branch \<open>if not date_text\<close>; it is only evaluated when that branch is taken.
\<close>

definition item_of_anchor :: "'n bs4 \<Rightarrow> 'n \<Rightarrow> ustr \<Rightarrow> exn + item option" where
  "item_of_anchor L a url =
     (let container = find_container L a;
          title_source = (case tag_find L container [ascii ''h1'', ascii ''h2'', ascii ''h3''] of
                            Some title_el \<Rightarrow> title_el
                          | None \<Rightarrow> a)
      in case clean_text L (get_text L title_source [32]) of
           Inl e \<Rightarrow> Inl e
         | Inr cleaned \<Rightarrow>
             let title_text = strip cleaned
             in if title_text = [] then Inr None
                else let date_text = (case tag_find L container [ascii ''time''] of
                                        None \<Rightarrow> None
                                      | Some time_el \<Rightarrow> Some (time_text L time_el));
                         fallback = (case clean_text L (get_text L container [32]) of
                                       Inl e \<Rightarrow> Inl e
                                     | Inr sibling_text \<Rightarrow>
                                         Inr (Some \<lparr>item_title = title_text,
                                                     item_date_raw = sibling_text, item_url = url\<rparr>))
                     in case date_text of
                          None \<Rightarrow> fallback
                        | Some d \<Rightarrow>
                            if d = [] then fallback
                            else Inr (Some \<lparr>item_title = title_text, item_date_raw = d,
                                             item_url = url\<rparr>))"

text \<open>
  The loop over the selected anchors, with the items and the URLs seen so far; \<open>max_items\<close>
  is a Python \<open>int\<close>.
\<close>

fun main_loop :: "'n bs4 \<Rightarrow> int \<Rightarrow> 'n list \<Rightarrow> item list \<Rightarrow> ustr set \<Rightarrow> exn + item list" where
  "main_loop L max_items [] items seen_urls = Inr items"
| "main_loop L max_items (a # as) items seen_urls =
     (case anchor_url L a of
        None \<Rightarrow> main_loop L max_items as items seen_urls
      | Some url \<Rightarrow>
          if url \<in> seen_urls then main_loop L max_items as items seen_urls
          else (case item_of_anchor L a url of
                  Inl e \<Rightarrow> Inl e
                | Inr None \<Rightarrow> main_loop L max_items as items seen_urls
                | Inr (Some it) \<Rightarrow>
                    if max_items \<le> int (length (items @ [it])) then Inr (items @ [it])
                    else main_loop L max_items as (items @ [it]) (insert url seen_urls)))"

definition extract_main_items :: "'n bs4 \<Rightarrow> 'n \<Rightarrow> int \<Rightarrow> exn + item list" where
  "extract_main_items L soup max_items = main_loop L max_items (select_links L soup) [] {}"

text \<open>
  To state which anchor an item comes from: among the anchors, the first one that resolves
  to the URL of the item and is not passed over for an empty title yields the item.
\<close>

definition comes_from :: "'n bs4 \<Rightarrow> 'n list \<Rightarrow> item \<Rightarrow> bool" where
  "comes_from L anchors it \<longleftrightarrow>
     (case List.find (\<lambda>a. anchor_url L a = Some (item_url it) \<and>
                            item_of_anchor L a (item_url it) \<noteq> Inr None) anchors of
        None \<Rightarrow> False
      | Some a \<Rightarrow> item_of_anchor L a (item_url it) = Inr (Some it))"

text \<open>
  To state where the container lies: the first \<open>n\<close> ancestors of a tag, the parent first.
\<close>

fun ancestors :: "'n bs4 \<Rightarrow> nat \<Rightarrow> 'n \<Rightarrow> 'n list" where
  "ancestors L 0 t = []"
| "ancestors L (Suc n) t =
     (case tag_parent L t of None \<Rightarrow> [] | Some p \<Rightarrow> p # ancestors L n p)"

section \<open>\<open>pipeline.py\<close>: the detail extractor\<close>

text \<open>
  The three lines the function repeats for the article, the main region and the whole
  document: \<open>paragraphs = [p.get_text(" ") for p in region.find_all("p")];
  text = " ".join(paragraphs) or region.get_text(" ")\<close>.
\<close>

definition region_text :: "'n bs4 \<Rightarrow> 'n \<Rightarrow> ustr" where
  "region_text L region =
     (let paragraphs = map (\<lambda>p. get_text L p [32]) (tag_find_all L region [ascii ''p'']);
          text = join [32] paragraphs
      in if text \<noteq> [] then text else get_text L region [32])"

definition extract_detail_content :: "'n bs4 \<Rightarrow> ustr \<Rightarrow> exn + ustr" where
  "extract_detail_content L detail_html =
     (case BeautifulSoup L detail_html of
        Inl e \<Rightarrow> Inl e
      | Inr soup \<Rightarrow>
          (case tag_find L soup [ascii ''article''] of
             Some article \<Rightarrow> clean_text L (region_text L article)
           | None \<Rightarrow>
               (case tag_find L soup [ascii ''main''] of
                  Some main \<Rightarrow> clean_text L (region_text L main)
                | None \<Rightarrow> clean_text L (region_text L soup))))"



section \<open>\<open>pipeline.py\<close>: the scrape orchestrator\<close>

text \<open>
  An Article Record.  The network is outside the program: \<open>http_get url w\<close> stands for
  \<open>requests.get(url, headers=HEADERS, timeout=30)\<close> followed by \<open>raise_for_status()\<close> and
  \<open>.text\<close>, in the state \<open>w\<close> of the world; it gives the page or the exception raised, and
  the next state.  \<open>md5\<close> stands for \<open>hashlib.md5(...).hexdigest()\<close> of the encoded URL;
  \<open>url.encode("utf-8")\<close> raises on a URL that has no encoding.  The \<open>print\<close> and the
  \<open>time.sleep\<close> of the loop are taken to return and leave no trace in the result.
\<close>

record article =
  article_id :: ustr
  article_title :: ustr
  article_date :: ustr
  article_url :: ustr
  article_content :: ustr

type_synonym 'w http = "ustr \<Rightarrow> 'w \<Rightarrow> (exn + ustr) \<times> 'w"

text \<open>The \<open>try\<close> block of the loop with its handler: the content, empty on any failure.\<close>

definition fetch_content :: "'n bs4 \<Rightarrow> 'w http \<Rightarrow> ustr \<Rightarrow> 'w \<Rightarrow> ustr \<times> 'w" where
  "fetch_content L http_get url w =
     (case http_get url w of
        (Inl e, w') \<Rightarrow> ([], w')
      | (Inr text, w') \<Rightarrow>
          (case extract_detail_content L text of
             Inl e \<Rightarrow> ([], w')
           | Inr content \<Rightarrow> (content, w')))"

fun scrape_loop ::
  "unicode \<Rightarrow> 'n bs4 \<Rightarrow> (ustr \<Rightarrow> ustr) \<Rightarrow> 'w http \<Rightarrow> item list \<Rightarrow> article list \<Rightarrow> 'w \<Rightarrow>
   (exn + article list) \<times> 'w" where
  "scrape_loop U L md5 http_get [] results w = (Inr results, w)"
| "scrape_loop U L md5 http_get (it # main_items) results w =
     (case fetch_content L http_get (item_url it) w of
        (content, w') \<Rightarrow>
          (case normalize_date U (item_date_raw it) of
             Inl e \<Rightarrow> (Inl e, w')
           | Inr d \<Rightarrow>
               if \<not> utf8_encodable (item_url it) then (Inl UnicodeEncodeError, w')
               else scrape_loop U L md5 http_get main_items
                      (results @
                       [\<lparr>article_id = md5 (item_url it), article_title = item_title it,
                         article_date = (case d of None \<Rightarrow> [] | Some iso_date \<Rightarrow> iso_date),
                         article_url = item_url it, article_content = content\<rparr>])
                      w'))"

definition scrape ::
  "unicode \<Rightarrow> 'n bs4 \<Rightarrow> (ustr \<Rightarrow> ustr) \<Rightarrow> 'w http \<Rightarrow> 'w \<Rightarrow> (exn + article list) \<times> 'w" where
  "scrape U L md5 http_get w =
     (case http_get BASE_URL w of
        (Inl e, w') \<Rightarrow> (Inl e, w')
      | (Inr text, w') \<Rightarrow>
          (case BeautifulSoup L text of
             Inl e \<Rightarrow> (Inl e, w')
           | Inr soup \<Rightarrow>
               (case extract_main_items L soup 5 of
                  Inl e \<Rightarrow> (Inl e, w')
                | Inr main_items \<Rightarrow> scrape_loop U L md5 http_get main_items [] w')))"

text \<open>
  To state what the loop returns: a detail page fails when the request raises or the
  extractor raises on its text; \<open>fetched\<close> gives the contents the \<open>try\<close> block yields for a
  list of URLs, one request after the other, and the state of the world after them.
\<close>

definition detail_fails :: "'n bs4 \<Rightarrow> 'w http \<Rightarrow> ustr \<Rightarrow> 'w \<Rightarrow> bool" where
  "detail_fails L http_get url w \<longleftrightarrow>
     (case fst (http_get url w) of
        Inl e \<Rightarrow> True
      | Inr text \<Rightarrow> (case extract_detail_content L text of Inl e \<Rightarrow> True | Inr c \<Rightarrow> False))"

fun fetched :: "'n bs4 \<Rightarrow> 'w http \<Rightarrow> ustr list \<Rightarrow> 'w \<Rightarrow> (ustr \<times> bool) list \<times> 'w" where
  "fetched L http_get [] w = ([], w)"
| "fetched L http_get (url # urls) w =
     (case fetch_content L http_get url w of
        (content, w') \<Rightarrow>
          (case fetched L http_get urls w' of
             (rest, w'') \<Rightarrow> ((content, detail_fails L http_get url w) # rest, w'')))"

text \<open>
  To state what a record holds: the record of an item has the hash of the URL as its id,
  the URL and the title of the item, and a date that is the empty text or a valid date of
  the shape \<open>YYYY-MM-DD\<close>.
\<close>

definition record_ok :: "(ustr \<Rightarrow> ustr) \<Rightarrow> item \<Rightarrow> article \<Rightarrow> bool" where
  "record_ok md5 it a \<longleftrightarrow>
     article_id a = md5 (item_url it) \<and> article_url a = item_url it \<and>
     article_title a = item_title it \<and>
     (article_date a = [] \<or> iso_shape (article_date a) \<and> iso_valid (article_date a))"

section \<open>\<open>pipeline.py\<close>: the upsert orchestrator\<close>








section \<open>\<open>api.py\<close>: the search handler\<close>







section \<open>A model of the parser library for the examples\<close>

text \<open>
  For closed examples the parameter \<open>L\<close> is instantiated with \<open>html_bs4\<close>, a model of the
  library on a small fragment of HTML.  A parsed document is a tree of text nodes and
  elements; an element has a tag name, its attributes and its children.  The
  \<open>BeautifulSoup\<close> object itself is the root element, named \<open>[document]\<close>.  A \<open>Tag\<close> object
  knows its parent: it is modelled as the element together with its ancestors, the parent
  first and the root last (none for the root, whose \<open>parent\<close> is \<open>None\<close>).
\<close>

datatype node = Text ustr | Elem ustr "(ustr \<times> ustr) list" "node list"

type_synonym tag = "node \<times> node list"

fun node_name :: "node \<Rightarrow> ustr" where
  "node_name (Elem n as cs) = n"
| "node_name (Text s) = []"

fun node_get :: "node \<Rightarrow> ustr \<Rightarrow> ustr option" where
  "node_get (Elem n as cs) key = map_of as key"
| "node_get (Text s) key = None"

text \<open>The strings below a node, in document order, and \<open>get_text(separator)\<close>.\<close>

fun strings :: "node \<Rightarrow> ustr list" where
  "strings (Text s) = [s]"
| "strings (Elem n as cs) = concat (map strings cs)"

definition node_text :: "node \<Rightarrow> ustr \<Rightarrow> ustr" where
  "node_text n separator = join separator (strings n)"

text \<open>
  The elements below a node in document order, each with its ancestors; the first
  argument holds the ancestors of the node itself.
\<close>

fun descendants :: "node list \<Rightarrow> node \<Rightarrow> tag list" where
  "descendants anc (Text s) = []"
| "descendants anc (Elem n as cs) =
     concat (map (\<lambda>c. case c of
                         Text s \<Rightarrow> []
                       | Elem m bs ds \<Rightarrow> (c, Elem n as cs # anc) # descendants (Elem n as cs # anc) c)
                 cs)"

definition find_all :: "tag \<Rightarrow> ustr list \<Rightarrow> tag list" where
  "find_all t names = filter (\<lambda>d. node_name (fst d) \<in> set names) (descendants (snd t) (fst t))"

definition find_first :: "tag \<Rightarrow> ustr list \<Rightarrow> tag option" where
  "find_first t names = (case find_all t names of [] \<Rightarrow> None | d # ds \<Rightarrow> Some d)"

fun parent :: "tag \<Rightarrow> tag option" where
  "parent (e, []) = None"
| "parent (e, p # anc) = Some (p, anc)"

text \<open>
  The \<open>a\<close> elements whose \<open>href\<close> starts with one of the two prefixes, in document order.
\<close>

definition news_link :: "node \<Rightarrow> bool" where
  "news_link e \<longleftrightarrow>
     node_name e = ascii ''a'' \<and>
     (case node_get e (ascii ''href'') of
        None \<Rightarrow> False
      | Some h \<Rightarrow> startswith h (ascii ''/nyheter/'') \<or>
                  startswith h (ascii ''https://www.linkoping.se/nyheter/''))"

definition select_news_links :: "tag \<Rightarrow> tag list" where
  "select_news_links soup = filter (\<lambda>d. news_link (fst d)) (descendants (snd soup) (fst soup))"

text \<open>
  The fragment of HTML: text, the four character references \<open>&lt; &gt; &amp; &quot;\<close>,
  start tags \<open><name key="value" ...>\<close> and end tags \<open></name>\<close> of the ordinary elements
  listed in \<open>plain_elements\<close>.  On this fragment the library works as follows, and the model
  follows it: tag names are kept, a character reference becomes its character, adjacent
  pieces of text form one string, a string made of ASCII whitespace only is replaced by one
  newline or space, an end tag closes the open elements up to the nearest one of its name
  and is ignored when there is none, and the end of input closes all open elements.
  Markup outside the fragment is not modelled: \<open>html_fragment\<close> gives \<open>None\<close> and the
  constructor of \<open>html_bs4\<close> the value \<open>Inl NotModelled\<close>; no example below leaves the
  fragment, and the theorems hold for every library \<open>L\<close>.
\<close>

datatype token = TData ustr | TStart ustr "(ustr \<times> ustr) list" | TEnd ustr

definition plain_elements :: "ustr list" where
  "plain_elements =
     map ascii [''a'', ''article'', ''b'', ''div'', ''em'', ''h1'', ''h2'', ''h3'', ''li'', ''main'',
                ''ol'', ''p'', ''section'', ''span'', ''strong'', ''time'', ''ul'']"

definition plain_attributes :: "ustr list" where
  "plain_attributes = map ascii [''href'', ''datetime'', ''id'']"

definition entity :: "ustr \<Rightarrow> int option" where
  "entity n = map_of [(ascii ''lt'', 60), (ascii ''gt'', 62), (ascii ''amp'', 38),
                      (ascii ''quot'', 34)] n"

text \<open>The attributes of a start tag: \<open> key="value"\<close>, repeated (\<open>=\<close> is 61, \<open>"\<close> is 34).\<close>

function attributes :: "ustr \<Rightarrow> (ustr \<times> ustr) list option" where
  "attributes [] = Some []"
| "attributes (c # cs) =
     (if c \<noteq> 32 then None
      else let key = takeWhile (\<lambda>x. x \<noteq> 61) cs;
               after = dropWhile (\<lambda>x. x \<noteq> 61) cs
           in if key \<notin> set plain_attributes \<or> take 2 after \<noteq> [61, 34] then None
              else let val = takeWhile (\<lambda>x. x \<noteq> 34) (drop 2 after);
                       more = dropWhile (\<lambda>x. x \<noteq> 34) (drop 2 after)
                   in if more = [] then None
                      else map_option ((#) (key, val)) (attributes (tl more)))"
  by pat_completeness auto
termination
proof (relation "measure length", goal_cases)
  case 1
  then show ?case by simp
next
  case (2 c cs key after val more)
  have "length (tl more) \<le> length more" by simp
  also have "\<dots> \<le> length (drop 2 after)" unfolding 2 by (rule length_dropWhile_le)
  also have "\<dots> \<le> length after" by simp
  also have "\<dots> \<le> length cs" unfolding 2 by (rule length_dropWhile_le)
  finally show ?case by simp
qed

text \<open>What stands between \<open><\<close> and \<open>>\<close> (\<open>/\<close> is 47).\<close>

definition tag_token :: "ustr \<Rightarrow> token option" where
  "tag_token b =
     (case b of
        [] \<Rightarrow> None
      | c # r \<Rightarrow>
          if c = 47 then (if r \<in> set plain_elements then Some (TEnd r) else None)
          else let n = takeWhile (\<lambda>x. x \<noteq> 32) b
               in if n \<in> set plain_elements
                  then (case attributes (dropWhile (\<lambda>x. x \<noteq> 32) b) of
                          None \<Rightarrow> None
                        | Some as \<Rightarrow> if distinct (map fst as) then Some (TStart n as) else None)
                  else None)"

text \<open>A character of text joins the text that follows it.\<close>

fun add_char :: "int \<Rightarrow> token list \<Rightarrow> token list" where
  "add_char c (TData s # ts) = TData (c # s) # ts"
| "add_char c ts = TData [c] # ts"

datatype lex_state = InText | InTag ustr | InEntity ustr

text \<open>The lexer (\<open><\<close> is 60, \<open>>\<close> is 62, \<open>&\<close> is 38, \<open>;\<close> is 59).\<close>

fun lex :: "lex_state \<Rightarrow> ustr \<Rightarrow> token list option" where
  "lex InText [] = Some []"
| "lex (InTag b) [] = None"
| "lex (InEntity b) [] = None"
| "lex InText (c # cs) =
     (if c = 60 then lex (InTag []) cs
      else if c = 38 then lex (InEntity []) cs
      else map_option (add_char c) (lex InText cs))"
| "lex (InTag b) (c # cs) =
     (if c = 62
      then (case tag_token (rev b) of
              None \<Rightarrow> None
            | Some t \<Rightarrow> map_option ((#) t) (lex InText cs))
      else if c = 60 \<or> c = 38 then None
      else lex (InTag (c # b)) cs)"
| "lex (InEntity b) (c # cs) =
     (if c = 59
      then (case entity (rev b) of
              None \<Rightarrow> None
            | Some x \<Rightarrow> map_option (add_char x) (lex InText cs))
      else lex (InEntity (c # b)) cs)"

text \<open>A string of ASCII whitespace only becomes one newline or one space.\<close>

definition ascii_space :: "int \<Rightarrow> bool" where
  "ascii_space c \<longleftrightarrow> c \<in> {32, 10, 9, 12, 13}"

definition end_data :: "ustr \<Rightarrow> ustr" where
  "end_data s = (if list_all ascii_space s then (if 10 \<in> set s then [10] else [32]) else s)"

text \<open>
  The tree builder keeps the open elements: the innermost (name, attributes, children so
  far in reverse) and the ones around it, the root last.
\<close>

type_synonym frame = "ustr \<times> (ustr \<times> ustr) list \<times> node list"

fun add_child :: "node \<Rightarrow> frame \<Rightarrow> frame" where
  "add_child x (n, as, cs) = (n, as, x # cs)"

fun close_frame :: "frame \<Rightarrow> node" where
  "close_frame (n, as, cs) = Elem n as (rev cs)"

fun pop_to :: "ustr \<Rightarrow> frame \<Rightarrow> frame list \<Rightarrow> frame \<times> frame list" where
  "pop_to n cur [] = (cur, [])"
| "pop_to n cur (p # st) =
     (if fst cur = n then (add_child (close_frame cur) p, st)
      else pop_to n (add_child (close_frame cur) p) st)"

fun close_all :: "frame \<Rightarrow> frame list \<Rightarrow> node" where
  "close_all cur [] = close_frame cur"
| "close_all cur (p # st) = close_all (add_child (close_frame cur) p) st"

fun build :: "token list \<Rightarrow> frame \<Rightarrow> frame list \<Rightarrow> node" where
  "build [] cur st = close_all cur st"
| "build (TData s # ts) cur st = build ts (add_child (Text (end_data s)) cur) st"
| "build (TStart n as # ts) cur st = build ts (n, as, []) (cur # st)"
| "build (TEnd n # ts) cur st =
     (if n \<in> set (map fst (butlast (cur # st)))
      then (case pop_to n cur st of (cur', st') \<Rightarrow> build ts cur' st')
      else build ts cur st)"

definition html_fragment :: "ustr \<Rightarrow> node option" where
  "html_fragment markup =
     map_option (\<lambda>ts. build ts (ascii ''[document]'', [], []) []) (lex InText markup)"

definition html_bs4 :: "tag bs4" where
  "html_bs4 =
     \<lparr>BeautifulSoup = (\<lambda>markup. case html_fragment markup of
                                   None \<Rightarrow> Inl NotModelled
                                 | Some soup \<Rightarrow> Inr (soup, [])),
      select_links = select_news_links,
      tag_get = (\<lambda>t. node_get (fst t)),
      tag_parent = parent,
      tag_name = (\<lambda>t. node_name (fst t)),
      tag_find = find_first,
      tag_find_all = find_all,
      get_text = (\<lambda>t. node_text (fst t))\<rparr>"

text \<open>
  A site for the examples: the listing page, one detail page that is served, one whose
  request raises; any other request is answered with an HTTP error.  The world has no
  state.  \<open>toy_digest\<close> stands for the hash in the examples.
\<close>

definition listing_page :: ustr where
  "listing_page = ascii
     (''<ul><li><h2>Ny park</h2><time datetime='' @ [CHR 0x22] @ ''2024-08-28T10:15'' @ [CHR 0x22] @
      ''>i dag</time><a href='' @ [CHR 0x22] @ ''/nyheter/park'' @ [CHR 0x22] @ ''>Mer</a></li>'' @
      ''<li><a href='' @ [CHR 0x22] @ ''/nyheter/bro'' @ [CHR 0x22] @ ''>Bron rustas</a> 32 augusti 2024</li>'' @
      ''<li><a href='' @ [CHR 0x22] @ ''/nyheter/park'' @ [CHR 0x22] @ ''>Ny park igen</a></li></ul>'')"

definition park_page :: ustr where
  "park_page = ascii ''<main><h1>Ny park</h1><p>Parken   oppnar</p><p>i maj.</p></main>''"

definition example_site :: "unit http" where
  "example_site url w =
     (if url = BASE_URL then (Inr listing_page, w)
      else if url = ascii ''https://www.linkoping.se/nyheter/park'' then (Inr park_page, w)
      else if url = ascii ''https://www.linkoping.se/nyheter/bro'' then (Inl RequestException, w)
      else (Inl HTTPError, w))"

definition toy_digest :: "ustr \<Rightarrow> ustr" where
  "toy_digest url = ascii ''md5:'' @ url"

section \<open>Facts about the date normalizer\<close>

subsection \<open>Printing a date gives back the digits it was read from\<close>

declare str_nat.simps [simp del]

lemma digit_char_0: "digit_char 0 = 48"
  by (simp add: digit_char_def)

lemma digit_char_val: "ascii_digit c \<Longrightarrow> digit_char (ascii_val c) = c"
  by (simp add: ascii_digit_def digit_char_def ascii_val_def)

lemma ascii_val_less: "ascii_digit c \<Longrightarrow> ascii_val c < 10"
  by (auto simp: ascii_digit_def ascii_val_def)

lemma str_nat_digit: "w < 10 \<Longrightarrow> str_nat w = [digit_char w]"
  by (simp add: str_nat.simps [of w])

lemma str_nat_step:
  assumes "0 < m" "w < 10"
  shows "str_nat (10 * m + w) = str_nat m @ [digit_char w]"
proof -
  from assms have "\<not> 10 * m + w < 10" "(10 * m + w) div 10 = m" "(10 * m + w) mod 10 = w"
    by simp_all
  then show ?thesis
    by (simp add: str_nat.simps [of "10 * m + w"])
qed

lemma zfill_step:
  assumes "w < 10" "0 < k"
  shows "zfill (Suc k) (str_nat (10 * m + w)) = zfill k (str_nat m) @ [digit_char w]"
proof (cases "m = 0")
  case True
  from \<open>0 < k\<close> obtain j where k: "k = Suc j" by (cases k) auto
  show ?thesis
    using assms True
    by (simp add: str_nat_digit zfill_def digit_char_0 k replicate_append_same)
next
  case False
  then show ?thesis
    using assms by (simp add: str_nat_step zfill_def Suc_diff_le)
qed

lemma ascii_digits_val_snoc: "ascii_digits_val (cs @ [c]) = 10 * ascii_digits_val cs + ascii_val c"
  by (simp add: ascii_digits_val_def)

lemma zfill_digits:
  assumes "list_all ascii_digit ds" "ds \<noteq> []"
  shows "zfill (length ds) (str_nat (ascii_digits_val ds)) = ds"
  using assms
proof (induction ds rule: rev_induct)
  case Nil
  then show ?case by simp
next
  case (snoc c cs)
  then have c: "ascii_digit c" and cs: "list_all ascii_digit cs" by simp_all
  show ?case
  proof (cases "cs = []")
    case True
    then show ?thesis
      using c by (simp add: ascii_digits_val_def str_nat_digit ascii_val_less zfill_def digit_char_val)
  next
    case False
    with snoc.IH cs have "zfill (length cs) (str_nat (ascii_digits_val cs)) = cs" by simp
    moreover from False have "0 < length cs" by simp
    ultimately show ?thesis
      using c by (simp add: ascii_digits_val_snoc zfill_step ascii_val_less digit_char_val)
  qed
qed

lemma digit_char_digit: "n < 10 \<Longrightarrow> ascii_digit (digit_char n) \<and> ascii_val (digit_char n) = n"
  by (simp add: ascii_digit_def digit_char_def ascii_val_def)

lemma zfill_str_nat:
  "n < 10 ^ Suc k \<Longrightarrow>
   length (zfill (Suc k) (str_nat n)) = Suc k \<and>
   list_all ascii_digit (zfill (Suc k) (str_nat n)) \<and>
   ascii_digits_val (zfill (Suc k) (str_nat n)) = n"
proof (induction k arbitrary: n)
  case 0
  then have n: "n < 10" by simp
  then have "zfill (Suc 0) (str_nat n) = [digit_char n]"
    by (simp add: str_nat_digit zfill_def)
  with n show ?case
    by (simp add: digit_char_digit ascii_digits_val_def)
next
  case (Suc k)
  define m w where "m = n div 10" and "w = n mod 10"
  have n: "n = 10 * m + w" and w: "w < 10" by (simp_all add: m_def w_def)
  from Suc.prems have "m < 10 ^ Suc k" by (simp add: m_def less_mult_imp_div_less)
  from Suc.IH [OF this] have ih: "length (zfill (Suc k) (str_nat m)) = Suc k"
    "list_all ascii_digit (zfill (Suc k) (str_nat m))"
    "ascii_digits_val (zfill (Suc k) (str_nat m)) = m"
    by simp_all
  have "zfill (Suc (Suc k)) (str_nat n) = zfill (Suc k) (str_nat m) @ [digit_char w]"
    unfolding n using w by (intro zfill_step) simp_all
  with ih w show ?case
    by (simp add: ascii_digits_val_snoc digit_char_digit n)
qed

subsection \<open>Date shapes and what the ISO pattern matches\<close>

lemma date_shape_split:
  assumes "date_shape D s"
  shows "s = take 4 s @ [45] @ take 2 (drop 5 s) @ [45] @ drop 8 s"
proof -
  from assms have l: "length s = 10" and h: "s ! 4 = 45" "s ! 7 = 45"
    by (simp_all add: date_shape_def)
  have "s = take 4 s @ drop 4 s" by simp
  moreover have "drop 4 s = s ! 4 # drop 5 s"
    using l Cons_nth_drop_Suc [of 4 s] by simp
  moreover have "drop 5 s = take 2 (drop 5 s) @ drop 7 s"
    using append_take_drop_id [of 2 "drop 5 s"] by simp
  moreover have "drop 7 s = s ! 7 # drop 8 s"
    using l Cons_nth_drop_Suc [of 7 s] by simp
  ultimately show ?thesis
    using h by simp
qed

lemma date_shape_mono: "date_shape D s \<Longrightarrow> (\<And>c. D c \<Longrightarrow> E c) \<Longrightarrow> date_shape E s"
  by (auto simp: date_shape_def list_all_iff)

lemma ascii_digit_is_digit: "wf_unicode U \<Longrightarrow> ascii_digit c \<Longrightarrow> is_digit U c"
  by (simp add: wf_unicode_def ascii_digit_def is_digit_def)

lemma iso_shape_match: "wf_unicode U \<Longrightarrow> iso_shape m \<Longrightarrow> iso_match_shape U m"
  unfolding iso_shape_def iso_match_shape_def
  by (erule date_shape_mono) (rule ascii_digit_is_digit)

lemma fromisoformat_roundtrip:
  assumes "fromisoformat s = Inr dt"
  shows "isoformat dt = s"
proof -
  from assms have sh: "date_shape ascii_digit s"
    by (auto simp: fromisoformat_def iso_shape_def split: if_splits)
  then have l: "length s = 10" by (simp add: date_shape_def)
  then have ne: "s \<noteq> []" by auto
  from assms sh have dt: "date_year dt = ascii_digits_val (take 4 s)"
    "date_month dt = ascii_digits_val (take 2 (drop 5 s))"
    "date_day dt = ascii_digits_val (drop 8 s)"
    by (auto simp: fromisoformat_def datetime_def split: if_splits)
  have "zfill 4 (str_nat (ascii_digits_val (take 4 s))) = take 4 s"
    using zfill_digits [of "take 4 s"] sh l ne by (auto simp: date_shape_def)
  moreover have "zfill 2 (str_nat (ascii_digits_val (take 2 (drop 5 s)))) = take 2 (drop 5 s)"
    using zfill_digits [of "take 2 (drop 5 s)"] sh l ne by (auto simp: date_shape_def)
  moreover have "zfill 2 (str_nat (ascii_digits_val (drop 8 s))) = drop 8 s"
    using zfill_digits [of "drop 8 s"] sh l ne by (auto simp: date_shape_def)
  ultimately show ?thesis
    using date_shape_split [OF sh] by (simp add: isoformat_def dt)
qed

lemma first_some_single: "first_some f [k] = f k"
  by (simp split: option.splits)

lemma takeWhile_count: "k \<le> length (takeWhile P s) \<longleftrightarrow> k \<le> length s \<and> list_all P (take k s)"
proof (induction s arbitrary: k)
  case Nil
  then show ?case by simp
next
  case (Cons c cs)
  then show ?case by (cases k) auto
qed

lemma re_match_exact:
  "re_match ((cls, k, Some k) # its) s =
     (if k \<le> length s \<and> list_all cls (take k s)
      then map_option ((#) (take k s)) (re_match its (drop k s)) else None)"
proof (cases "k \<le> length (takeWhile cls s)")
  case True
  then have "min k (length (takeWhile cls s)) = k" by simp
  with True show ?thesis
    by (simp add: takeWhile_count [symmetric] split: option.splits)
next
  case False
  then have "[k ..< Suc (min k (length (takeWhile cls s)))] = []" by (simp add: min_def)
  with False show ?thesis
    by (simp add: takeWhile_count [symmetric])
qed

lemma take_1_drop: "i < length s \<Longrightarrow> take 1 (drop i s) = [s ! i]"
  by (simp add: take_Suc_conv_app_nth [of 0] hd_drop_conv_nth take_Suc)

lemma date_shape_take:
  "date_shape D (take 10 s) \<longleftrightarrow>
     10 \<le> length s \<and> list_all D (take 4 s) \<and> s ! 4 = 45 \<and>
     list_all D (take 2 (drop 5 s)) \<and> s ! 7 = 45 \<and> list_all D (take 2 (drop 8 s))"
  by (auto simp: date_shape_def drop_take min_def)

lemma re_match_iso:
  "re_match (iso_re U) s =
     (if iso_match_shape U (take 10 s)
      then Some [take 4 s, [45], take 2 (drop 5 s), [45], take 2 (drop 8 s)] else None)"
proof (cases "10 \<le> length s")
  case True
  then have "take 1 (drop 4 s) = [s ! 4]" "take 1 (drop 7 s) = [s ! 7]"
    using take_1_drop [of 4 s] take_1_drop [of 7 s] by simp_all
  with True show ?thesis
    unfolding iso_re_def re_match_exact iso_match_shape_def date_shape_take
    by (auto simp: is_char_def)
next
  case False
  then show ?thesis
    unfolding iso_re_def re_match_exact iso_match_shape_def date_shape_take
    by auto
qed

subsection \<open>Searching: the leftmost match, and \<open>strip\<close> does not move it\<close>

lemma re_search_hit: "re_match p s = Some ps \<Longrightarrow> re_search p s = Some ps"
  by (cases s) simp_all

lemma re_search_skip:
  "(\<forall>j < length pre. re_match p (drop j (pre @ rest)) = None) \<Longrightarrow>
   re_search p (pre @ rest) = re_search p rest"
proof (induction pre)
  case Nil
  then show ?case by simp
next
  case (Cons c pre)
  have "0 < length (c # pre)" by simp
  with Cons.prems have "re_match p (drop 0 ((c # pre) @ rest)) = None" by blast
  then have 0: "re_match p (c # pre @ rest) = None" by simp
  have "\<forall>j < length pre. re_match p (drop j (pre @ rest)) = None"
  proof (intro allI impI)
    fix j assume "j < length pre"
    then have "Suc j < length (c # pre)" by simp
    with Cons.prems have "re_match p (drop (Suc j) ((c # pre) @ rest)) = None" by blast
    then show "re_match p (drop j (pre @ rest)) = None" by simp
  qed
  with Cons.IH 0 show ?case by simp
qed

lemma isspace_not_digit: "wf_unicode U \<Longrightarrow> isspace c \<Longrightarrow> \<not> is_digit U c"
  by (simp add: wf_unicode_def is_digit_def)

lemma match_shape_no_space:
  assumes wf: "wf_unicode U" and m: "iso_match_shape U m" and c: "c \<in> set m"
  shows "\<not> isspace c"
proof -
  have sh: "date_shape (is_digit U) m" using m by (simp add: iso_match_shape_def)
  have hy: "\<not> isspace 45" by (simp add: isspace_def)
  from c have "c \<in> set (take 4 m @ [45] @ take 2 (drop 5 m) @ [45] @ drop 8 m)"
    using date_shape_split [OF sh] by simp
  then have "c \<in> set (take 4 m) \<or> c = 45 \<or> c \<in> set (take 2 (drop 5 m)) \<or> c \<in> set (drop 8 m)"
    by (simp only: set_append set_simps Un_iff insert_iff empty_iff) blast
  with sh hy show ?thesis
    using isspace_not_digit [OF wf] by (auto simp: date_shape_def list_all_iff)
qed

lemma re_match_iso_space: "wf_unicode U \<Longrightarrow> isspace c \<Longrightarrow> re_match (iso_re U) (c # cs) = None"
  unfolding re_match_iso iso_match_shape_def date_shape_take
  by (auto simp: isspace_not_digit)

lemma re_match_iso_Nil: "re_match (iso_re U) [] = None"
  unfolding re_match_iso iso_match_shape_def date_shape_take by simp

lemma re_search_iso_lstrip:
  "wf_unicode U \<Longrightarrow> re_search (iso_re U) (dropWhile isspace s) = re_search (iso_re U) s"
  by (induction s) (simp_all add: re_match_iso_space)

lemma rstrip_Cons:
  "rev (dropWhile P (rev (c # cs))) =
     (if list_all P (c # cs) then [] else c # rev (dropWhile P (rev cs)))"
  by (auto simp: dropWhile_append list_all_iff)

lemma rstrip_decomp: "\<exists>w. rev (dropWhile P (rev t)) @ w = t \<and> list_all P w"
proof -
  have "takeWhile P (rev t) @ dropWhile P (rev t) = rev t" by simp
  then have "rev (takeWhile P (rev t) @ dropWhile P (rev t)) = t"
    by (simp only: rev_rev_ident)
  then have "rev (dropWhile P (rev t)) @ rev (takeWhile P (rev t)) = t"
    by (simp only: rev_append)
  moreover have "list_all P (rev (takeWhile P (rev t)))"
    by (auto simp: list_all_iff dest: set_takeWhileD)
  ultimately show ?thesis by blast
qed

lemma take_10_rstrip:
  assumes wf: "wf_unicode U"
    and sh: "iso_match_shape U (take 10 (rev (dropWhile isspace (rev t)))) \<or>
             iso_match_shape U (take 10 t)"
  shows "take 10 (rev (dropWhile isspace (rev t))) = take 10 t"
proof -
  define r where "r = rev (dropWhile isspace (rev t))"
  obtain w where t: "r @ w = t" and w: "list_all isspace w"
    using rstrip_decomp [of isspace t] unfolding r_def by blast
  show ?thesis
  proof (cases "10 \<le> length r")
    case True
    then have "take 10 (r @ w) = take 10 r" by simp
    then have "take 10 t = take 10 r" by (simp only: t)
    then show ?thesis by (simp add: r_def)
  next
    case False
    then have "\<not> iso_match_shape U (take 10 r)"
      by (simp add: iso_match_shape_def date_shape_def)
    with sh have s10: "iso_match_shape U (take 10 t)" by (simp add: r_def)
    then have l: "10 \<le> length t" by (simp add: iso_match_shape_def date_shape_take)
    have "length (r @ w) = length t" by (simp only: t)
    with False l have "w \<noteq> []" by auto
    then obtain x xs where wx: "w = x # xs" by (cases w) auto
    with w have sp: "isspace x" by simp
    have "take 10 (r @ x # xs) = r @ x # take (10 - length r - 1) xs"
      using False by (cases "10 - length r") auto
    then have "x \<in> set (take 10 (r @ w))" by (simp add: wx)
    then have "x \<in> set (take 10 t)" by (simp only: t)
    with wf s10 sp show ?thesis using match_shape_no_space by blast
  qed
qed

lemma re_match_iso_rstrip:
  assumes wf: "wf_unicode U"
  shows "re_match (iso_re U) (rev (dropWhile isspace (rev t))) = re_match (iso_re U) t"
proof -
  let ?r = "rev (dropWhile isspace (rev t))"
  have pieces: "re_match (iso_re U) s =
     (if iso_match_shape U (take 10 s)
      then Some [take 4 (take 10 s), [45], take 2 (drop 5 (take 10 s)), [45], drop 8 (take 10 s)]
      else None)" for s
    by (simp add: re_match_iso drop_take)
  show ?thesis
  proof (cases "iso_match_shape U (take 10 ?r) \<or> iso_match_shape U (take 10 t)")
    case True
    then have "take 10 ?r = take 10 t" by (rule take_10_rstrip [OF wf])
    then show ?thesis by (simp only: pieces [of ?r] pieces [of t])
  next
    case False
    then show ?thesis by (simp add: re_match_iso)
  qed
qed

lemma re_search_iso_rstrip:
  assumes wf: "wf_unicode U"
  shows "re_search (iso_re U) (rev (dropWhile isspace (rev t))) = re_search (iso_re U) t"
proof (induction t)
  case Nil
  then show ?case by simp
next
  case (Cons c cs)
  show ?case
  proof (cases "list_all isspace (c # cs)")
    case True
    then have "dropWhile isspace (c # cs) = []" by (auto simp: list_all_iff)
    then have "re_search (iso_re U) (c # cs) = re_search (iso_re U) []"
      using re_search_iso_lstrip [OF wf, of "c # cs"] by simp
    with True show ?thesis by (simp only: rstrip_Cons if_True)
  next
    case False
    have m: "re_match (iso_re U) (c # rev (dropWhile isspace (rev cs))) = re_match (iso_re U) (c # cs)"
      using re_match_iso_rstrip [OF wf, of "c # cs"] False by (simp only: rstrip_Cons if_False)
    show ?thesis
      using False Cons.IH by (simp only: rstrip_Cons if_False re_search.simps m)
  qed
qed

lemma re_search_iso_strip:
  "wf_unicode U \<Longrightarrow> re_search (iso_re U) (strip s) = re_search (iso_re U) s"
  by (simp add: strip_def re_search_iso_rstrip re_search_iso_lstrip)

subsection \<open>An embedded ISO date is returned as it stands\<close>

lemma wf_sample_unicode: "wf_unicode sample_unicode"
  by (auto simp: wf_unicode_def sample_unicode_def isspace_def)

lemma try_fromisoformat_valid:
  assumes "iso_shape m" "iso_valid m"
  shows "try_fromisoformat m = Some m"
proof -
  from assms obtain dt where dt: "fromisoformat m = Inr dt"
    by (auto simp: fromisoformat_def datetime_def iso_valid_def)
  then have "isoformat dt = m" by (rule fromisoformat_roundtrip)
  with dt show ?thesis by (simp add: try_fromisoformat_def)
qed

lemma iso_pieces_concat:
  assumes "date_shape D (take 10 x)"
  shows "concat (take 5 [take 4 x, [45], take 2 (drop 5 x), [45], take 2 (drop 8 x)]) = take 10 x"
  using date_shape_split [OF assms] by (simp add: drop_take)

lemma re_search_iso_leftmost:
  assumes s: "s = pre @ m @ post" and m: "iso_match_shape U m"
    and left: "\<forall>j < length pre. \<not> iso_match_shape U (take 10 (drop j s))"
  shows "re_search (iso_re U) s =
     Some [take 4 m, [45], take 2 (drop 5 m), [45], take 2 (drop 8 m)]"
proof -
  from m have l: "length m = 10" by (simp add: iso_match_shape_def date_shape_def)
  then have t: "take 10 (m @ post) = m" by simp
  have "\<forall>j < length pre. re_match (iso_re U) (drop j (pre @ (m @ post))) = None"
    using left s by (simp add: re_match_iso)
  then have "re_search (iso_re U) (pre @ (m @ post)) = re_search (iso_re U) (m @ post)"
    by (rule re_search_skip)
  moreover have "re_match (iso_re U) (m @ post) =
      Some [take 4 m, [45], take 2 (drop 5 m), [45], take 2 (drop 8 m)]"
    using m l by (simp add: re_match_iso t)
  ultimately show ?thesis
    using s by (simp add: re_search_hit)
qed

text \<open>
  Claim C3, as the code has it.  \<open>\d\<close> matches every Unicode decimal digit.  Let the
  leftmost text in the input that \<open>\d{4}-\d{2}-\d{2}\<close> matches be \<open>m\<close> (whatever follows
  it, a \<open>T\<close> and a time of day or anything else), let \<open>m\<close> be written with the digits \<open>0\<close>
  to \<open>9\<close> and denote a valid calendar date.  Then \<open>normalize_date\<close> returns exactly \<open>m\<close>.
\<close>

theorem normalize_date_iso:
  assumes wf: "wf_unicode U"
    and s: "s = pre @ m @ post" and m: "iso_shape m" and v: "iso_valid m"
    and left: "\<forall>j < length pre. \<not> iso_match_shape U (take 10 (drop j s))"
  shows "normalize_date U s = Inr (Some m)"
proof -
  from m have l: "length m = 10" by (simp add: iso_shape_def date_shape_def)
  then have ne: "m \<noteq> []" "s \<noteq> []" using s by auto
  have t: "take 10 m = m" using l by simp
  have mm: "iso_match_shape U m" using wf m by (rule iso_shape_match)
  have "re_search (iso_re U) (strip s) =
      Some [take 4 m, [45], take 2 (drop 5 m), [45], take 2 (drop 8 m)]"
    using re_search_iso_leftmost [OF s mm left] wf by (simp add: re_search_iso_strip)
  moreover have "concat (take 5 [take 4 m, [45], take 2 (drop 5 m), [45], take 2 (drop 8 m)]) = m"
    using iso_pieces_concat [of ascii_digit m] m t by (simp add: iso_shape_def)
  ultimately have "try_parse_iso U s = Inr (Some m)"
    using try_fromisoformat_valid [OF m v] by (simp add: try_parse_iso_def)
  with ne show ?thesis
    by (simp add: normalize_date_def)
qed

lemma all_less_upt: "list_all P [0 ..< n] \<Longrightarrow> \<forall>j < n. P j"
  by (simp add: list_all_iff)

theorem normalize_date_iso_witness:
  "iso_shape (ascii ''2024-08-28'') \<and> iso_valid (ascii ''2024-08-28'') \<and>
   normalize_date sample_unicode (ascii ''Publicerad 2024-08-28T10:15'') =
     Inr (Some (ascii ''2024-08-28''))"
proof -
  have 1: "iso_shape (ascii ''2024-08-28'')" by code_simp
  have 2: "iso_valid (ascii ''2024-08-28'')" by code_simp
  have 3: "list_all (\<lambda>j. \<not> iso_match_shape sample_unicode
      (take 10 (drop j (ascii ''Publicerad 2024-08-28T10:15'')))) [0 ..< 11]"
    by code_simp
  have 4: "\<forall>j < length (ascii ''Publicerad '').
      \<not> iso_match_shape sample_unicode (take 10 (drop j (ascii ''Publicerad 2024-08-28T10:15'')))"
    using all_less_upt [OF 3] by (simp add: ascii_def)
  have 5: "ascii ''Publicerad 2024-08-28T10:15'' =
      ascii ''Publicerad '' @ ascii ''2024-08-28'' @ ascii ''T10:15''"
    by (simp add: ascii_def)
  have "normalize_date sample_unicode (ascii ''Publicerad 2024-08-28T10:15'') =
      Inr (Some (ascii ''2024-08-28''))"
    using normalize_date_iso [OF wf_sample_unicode 5 1 2 4] .
  with 1 2 show ?thesis by blast
qed

text \<open>
  The claim as the specification words it fails on digits that \<open>\d\<close> matches and
  \<open>datetime.fromisoformat\<close> does not read: the text \<open>2024-08-28\<close> alone is returned as it
  stands, but after the same date in Arabic-Indic digits (U+0660 to U+0669) the pattern
  matches the Arabic-Indic text first, \<open>fromisoformat\<close> raises on it, and the result is
  \<open>None\<close>.
\<close>

theorem normalize_date_iso_counterexample:
  "normalize_date sample_unicode (ascii ''2024-08-28'') = Inr (Some (ascii ''2024-08-28'')) \<and>
   iso_match_shape sample_unicode [1634, 1632, 1634, 1636, 45, 1632, 1640, 45, 1634, 1640] \<and>
   normalize_date sample_unicode
     ([1634, 1632, 1634, 1636, 45, 1632, 1640, 45, 1634, 1640, 32] @ ascii ''2024-08-28'') =
     Inr None"
  by code_simp

subsection \<open>The normalizer never raises\<close>

lemma first_some_SomeD: "first_some f ks = Some y \<Longrightarrow> \<exists>k \<in> set ks. f k = Some y"
  by (induction ks) (auto split: option.splits)

lemma re_match_length: "re_match p s = Some ps \<Longrightarrow> length ps = length p"
proof (induction p arbitrary: s ps)
  case Nil
  then show ?case by simp
next
  case (Cons it its)
  from Cons.prems obtain k qs where "re_match its (drop k s) = Some qs" "ps = take k s # qs"
    by (auto simp: Let_def dest!: first_some_SomeD)
  with Cons.IH show ?case by auto
qed

lemma try_parse_iso_Inr: "\<exists>r. try_parse_iso U s = Inr r"
  by (simp add: try_parse_iso_def Let_def split: option.splits)

lemma try_parse_swedish_Inr: "\<exists>r. try_parse_swedish U s = Inr r"
  by (simp add: try_parse_swedish_def Let_def split: option.splits sum.splits)

lemma normalize_date_Inr: "\<exists>r. normalize_date U s = Inr r"
proof -
  obtain a b where "try_parse_iso U s = Inr a" "try_parse_swedish U s = Inr b"
    using try_parse_iso_Inr try_parse_swedish_Inr by blast
  then show ?thesis
    by (simp add: normalize_date_def)
qed

lemma try_fromisoformat_Some:
  "try_fromisoformat g = Some r \<Longrightarrow> r = g \<and> iso_shape g \<and> iso_valid g"
proof -
  assume a: "try_fromisoformat g = Some r"
  then obtain dt where dt: "fromisoformat g = Inr dt" and r: "r = isoformat dt"
    by (auto simp: try_fromisoformat_def split: sum.splits)
  from dt have "iso_shape g \<and> iso_valid g"
    by (auto simp: fromisoformat_def datetime_def iso_valid_def split: if_splits)
  with r fromisoformat_roundtrip [OF dt] show ?thesis by simp
qed

lemma strip_decomp: "\<exists>a b. a @ strip s @ b = s"
proof -
  obtain w where "strip s @ w = dropWhile isspace s"
    using rstrip_decomp [of isspace "dropWhile isspace s"] by (auto simp: strip_def)
  then have "takeWhile isspace s @ strip s @ w = s"
    by simp
  then show ?thesis by blast
qed

subsection \<open>The Swedish pattern: greedy items over disjoint classes never backtrack\<close>

lemma first_some_head:
  "\<forall>k \<in> set ks. f k = None \<Longrightarrow> first_some f (x # ks) = f x"
  by (induction ks) (auto split: option.splits)

lemma re_match_wrong_start:
  assumes "1 \<le> lo" "s \<noteq> []" "\<not> cls (hd s)"
  shows "re_match ((cls, lo, hi) # its) s = None"
proof -
  from assms have "takeWhile cls s = []" by (cases s) auto
  with assms(1) show ?thesis
    by (simp split: option.splits)
qed

lemma takeWhile_holds: "k < length (takeWhile P xs) \<Longrightarrow> P (xs ! k)"
proof -
  assume k: "k < length (takeWhile P xs)"
  then have "takeWhile P xs ! k \<in> set (takeWhile P xs)" by (rule nth_mem)
  then have "P (takeWhile P xs ! k)" by (rule set_takeWhileD [THEN conjunct2])
  with k show ?thesis by (simp add: takeWhile_nth)
qed

lemma re_match_greedy:
  assumes lo2: "1 \<le> lo2" and dis: "\<forall>c. cls c \<longrightarrow> \<not> cls2 c"
  shows "re_match ((cls, lo, hi) # (cls2, lo2, hi2) # its) s =
     (let n = length (takeWhile cls s);
          top = (case hi of None \<Rightarrow> n | Some h \<Rightarrow> min h n)
      in if lo \<le> top
         then map_option ((#) (take top s)) (re_match ((cls2, lo2, hi2) # its) (drop top s))
         else None)"
proof -
  define n where "n = length (takeWhile cls s)"
  define top where "top = (case hi of None \<Rightarrow> n | Some h \<Rightarrow> min h n)"
  define f where "f = (\<lambda>k. map_option ((#) (take k s)) (re_match ((cls2, lo2, hi2) # its) (drop k s)))"
  have topn: "top \<le> n" by (simp add: top_def split: option.splits)
  have unfold: "re_match ((cls, lo, hi) # (cls2, lo2, hi2) # its) s = first_some f (rev [lo ..< Suc top])"
    unfolding f_def top_def n_def by (simp add: Let_def)
  show ?thesis
  proof (cases "lo \<le> top")
    case False
    then have "[lo ..< Suc top] = []" by simp
    with False show ?thesis
      unfolding unfold by (simp add: Let_def n_def [symmetric] top_def [symmetric])
  next
    case True
    then have cand: "rev [lo ..< Suc top] = top # rev [lo ..< top]" by simp
    have "f k = None" if "k \<in> set (rev [lo ..< top])" for k
    proof -
      from that topn have k: "k < n" by simp
      then have "k < length s"
        unfolding n_def using length_takeWhile_le [of cls s] by linarith
      then have ne: "drop k s \<noteq> []" and hd: "hd (drop k s) = s ! k"
        by (simp_all add: hd_drop_conv_nth)
      from k have "cls (s ! k)" unfolding n_def by (rule takeWhile_holds)
      with dis hd have "\<not> cls2 (hd (drop k s))" by simp
      then have "re_match ((cls2, lo2, hi2) # its) (drop k s) = None"
        using lo2 ne by (intro re_match_wrong_start)
      then show ?thesis by (simp add: f_def)
    qed
    then have "first_some f (top # rev [lo ..< top]) = f top"
      by (intro first_some_head) blast
    with True show ?thesis
      unfolding unfold cand by (simp add: Let_def n_def [symmetric] top_def [symmetric] f_def)
  qed
qed

lemma takeWhile_run:
  assumes "list_all P xs" "ys = [] \<or> \<not> P (hd ys)"
  shows "takeWhile P (xs @ ys) = xs"
proof -
  have "takeWhile P ys = []" using assms(2) by (cases ys) auto
  with assms(1) show ?thesis
    by (simp add: takeWhile_append list_all_iff)
qed

lemma isspace_not_letter: "isspace c \<Longrightarrow> \<not> is_swedish_letter c"
  unfolding isspace_def is_swedish_letter_def by auto

lemma hd_class: "list_all P xs \<Longrightarrow> xs \<noteq> [] \<Longrightarrow> P (hd (xs @ ys))"
  by (cases xs) auto

subsection \<open>Swedish long dates\<close>

lemma re_match_swedish:
  assumes wf: "wf_unicode U"
    and dd: "dd \<noteq> []" "length dd \<le> 2" "list_all (is_digit U) dd"
    and w1: "w1 \<noteq> []" "list_all isspace w1"
    and nm: "nm \<noteq> []" "list_all is_swedish_letter nm"
    and w2: "w2 \<noteq> []" "list_all isspace w2"
    and yy: "length yyyy = 4" "list_all (is_digit U) yyyy"
  shows "re_match (swedish_re U) (dd @ w1 @ nm @ w2 @ yyyy @ post) = Some [dd, w1, nm, w2, yyyy]"
proof -
  have yne: "yyyy \<noteq> []" using yy(1) by auto
  have d1: "\<forall>c. is_digit U c \<longrightarrow> \<not> isspace c" using isspace_not_digit [OF wf] by blast
  have d2: "\<forall>c. isspace c \<longrightarrow> \<not> is_swedish_letter c" using isspace_not_letter by blast
  have d3: "\<forall>c. is_swedish_letter c \<longrightarrow> \<not> isspace c" using isspace_not_letter by blast
  have d4: "\<forall>c. isspace c \<longrightarrow> \<not> is_digit U c" using isspace_not_digit [OF wf] by blast
  have t1: "takeWhile (is_digit U) (dd @ w1 @ nm @ w2 @ yyyy @ post) = dd"
    using dd(3) hd_class [OF w1(2) w1(1)] d4 by (intro takeWhile_run) auto
  have t2: "takeWhile isspace (w1 @ nm @ w2 @ yyyy @ post) = w1"
    using w1(2) hd_class [OF nm(2) nm(1)] isspace_not_letter by (intro takeWhile_run) auto
  have t3: "takeWhile is_swedish_letter (nm @ w2 @ yyyy @ post) = nm"
    using nm(2) hd_class [OF w2(2) w2(1)] isspace_not_letter by (intro takeWhile_run) auto
  have t4: "takeWhile isspace (w2 @ yyyy @ post) = w2"
    using w2(2) hd_class [OF yy(2) yne] d4 by (intro takeWhile_run) auto
  have le: "(1::nat) \<le> 4" "(1::nat) \<le> 1" by simp_all
  have m5: "re_match [(is_digit U, 4, Some 4)] (yyyy @ post) = Some [yyyy]"
    unfolding re_match_exact using yy by simp
  have m4: "re_match [(isspace, 1, None), (is_digit U, 4, Some 4)] (w2 @ yyyy @ post) = Some [w2, yyyy]"
    using w2(1) by (subst re_match_greedy [OF le(1) d4]) (simp add: t4 m5 Suc_le_eq del: re_match.simps)
  have m3: "re_match [(is_swedish_letter, 1, None), (isspace, 1, None), (is_digit U, 4, Some 4)]
      (nm @ w2 @ yyyy @ post) = Some [nm, w2, yyyy]"
    using nm(1) by (subst re_match_greedy [OF le(2) d3]) (simp add: t3 m4 [unfolded One_nat_def] Suc_le_eq del: re_match.simps)
  have m2: "re_match [(isspace, 1, None), (is_swedish_letter, 1, None), (isspace, 1, None),
      (is_digit U, 4, Some 4)] (w1 @ nm @ w2 @ yyyy @ post) = Some [w1, nm, w2, yyyy]"
    using w1(1) by (subst re_match_greedy [OF le(2) d2]) (simp add: t2 m3 [unfolded One_nat_def] Suc_le_eq del: re_match.simps)
  show ?thesis
    unfolding swedish_re_def
    using dd(1,2) by (subst re_match_greedy [OF le(2) d1]) (simp add: t1 m2 [unfolded One_nat_def] Suc_le_eq del: re_match.simps)
qed

lemma month_name:
  assumes "map_of SWEDISH_MONTHS nm = Some month"
  shows "nm \<noteq> [] \<and> list_all is_swedish_letter nm \<and> 1 \<le> month \<and> month \<le> 12"
proof -
  have "list_all (\<lambda>(n, m). n \<noteq> [] \<and> list_all is_swedish_letter n \<and> 1 \<le> m \<and> m \<le> 12) SWEDISH_MONTHS"
    by code_simp
  moreover from assms have "(nm, month) \<in> set SWEDISH_MONTHS" by (rule map_of_SomeD)
  ultimately show ?thesis by (auto simp: list_all_iff)
qed

lemma py_int_digits:
  "s \<noteq> [] \<Longrightarrow> list_all (is_digit U) s \<Longrightarrow> py_int U s = Inr (digits_val U s)"
  by (simp add: py_int_def)

lemma isoformat_nonempty: "isoformat dt \<noteq> []"
  by (simp add: isoformat_def)

lemma try_parse_swedish_match:
  assumes wf: "wf_unicode U"
    and low: "lowercase U s = pre @ dd @ w1 @ nm @ w2 @ yyyy @ post"
    and dd: "dd \<noteq> []" "length dd \<le> 2" "list_all (is_digit U) dd"
    and w1: "w1 \<noteq> []" "list_all isspace w1"
    and w2: "w2 \<noteq> []" "list_all isspace w2"
    and yy: "length yyyy = 4" "list_all (is_digit U) yyyy"
    and left: "\<forall>j < length pre. re_match (swedish_re U) (drop j (lowercase U s)) = None"
    and mon: "map_of SWEDISH_MONTHS nm = Some month"
  shows "try_parse_swedish U s =
     Inr (if valid_date (digits_val U yyyy) month (digits_val U dd)
          then Some (isoformat \<lparr>date_year = digits_val U yyyy, date_month = month,
                 date_day = digits_val U dd\<rparr>)
          else None)"
proof -
  from month_name [OF mon] have nm: "nm \<noteq> []" "list_all is_swedish_letter nm" "month \<noteq> 0"
    by auto
  have yne: "yyyy \<noteq> []" using yy(1) by auto
  let ?rest = "dd @ w1 @ nm @ w2 @ yyyy @ post"
  have hit: "re_match (swedish_re U) ?rest = Some [dd, w1, nm, w2, yyyy]"
    using wf dd w1 nm(1,2) w2 yy by (rule re_match_swedish)
  have "re_search (swedish_re U) (pre @ ?rest) = re_search (swedish_re U) ?rest"
    using left unfolding low by (rule re_search_skip)
  with hit have "re_search (swedish_re U) (lowercase U s) = Some [dd, w1, nm, w2, yyyy]"
    by (simp add: low re_search_hit)
  then show ?thesis
    using mon nm(3) py_int_digits [OF yne yy(2)] py_int_digits [OF dd(1) dd(3)]
    by (simp add: try_parse_swedish_def datetime_def)
qed

text \<open>
  Claim C4, as the code has it.  \<open>normalize_date\<close> never raises.  Let the ISO strategy
  find nothing (\<open>try_parse_iso\<close> returns \<open>None\<close>), and let the leftmost match of the Swedish
  pattern in the lower-cased input be a day of one or two digits, whitespace, a month name
  of the table, whitespace and a year of four digits.  Then the result is the ISO form of
  that date when day, month and year are a valid calendar date, and \<open>None\<close> (unparseable)
  when they are not.
\<close>

theorem normalize_date_swedish:
  assumes wf: "wf_unicode U"
    and noiso: "try_parse_iso U s = Inr None"
    and low: "lowercase U s = pre @ dd @ w1 @ nm @ w2 @ yyyy @ post"
    and dd: "dd \<noteq> []" "length dd \<le> 2" "list_all (is_digit U) dd"
    and w1: "w1 \<noteq> []" "list_all isspace w1"
    and w2: "w2 \<noteq> []" "list_all isspace w2"
    and yy: "length yyyy = 4" "list_all (is_digit U) yyyy"
    and left: "\<forall>j < length pre. re_match (swedish_re U) (drop j (lowercase U s)) = None"
    and mon: "map_of SWEDISH_MONTHS nm = Some month"
  shows "(\<forall>t. \<exists>r. normalize_date U t = Inr r) \<and>
     normalize_date U s =
       Inr (if valid_date (digits_val U yyyy) month (digits_val U dd)
            then Some (isoformat \<lparr>date_year = digits_val U yyyy, date_month = month,
                   date_day = digits_val U dd\<rparr>)
            else None)"
proof -
  have "s \<noteq> []"
  proof
    assume "s = []"
    with wf have "lowercase U s = []" by (simp add: wf_unicode_def)
    with low dd(1) show False by simp
  qed
  then show ?thesis
    using noiso try_parse_swedish_match [OF wf low dd w1 w2 yy left mon] normalize_date_Inr
    by (simp add: normalize_date_def isoformat_nonempty)
qed

theorem normalize_date_swedish_witness:
  "normalize_date sample_unicode (ascii ''2024-13-45, 28 AUGUSTI 2024'') =
     Inr (Some (ascii ''2024-08-28'')) \<and>
   normalize_date sample_unicode ([1635, 1634] @ ascii '' augusti 2024'') = Inr None"
proof -
  let ?U = "sample_unicode"
  let ?s = "ascii ''2024-13-45, 28 AUGUSTI 2024''"
  let ?pre = "ascii ''2024-13-45, ''"
  have a: "try_parse_iso ?U ?s = Inr None"
    by code_simp
  have b: "lowercase ?U ?s =
      ?pre @ ascii ''28'' @ ascii '' '' @ ascii ''augusti'' @ ascii '' '' @ ascii ''2024'' @ []"
    by code_simp
  have c: "list_all (\<lambda>j. re_match (swedish_re ?U) (drop j (lowercase ?U ?s)) = None)
      [0 ..< length ?pre]"
    by code_simp
  have d: "map_of SWEDISH_MONTHS (ascii ''augusti'') = Some 8"
    by code_simp
  have e: "ascii ''28'' \<noteq> []" "length (ascii ''28'') \<le> 2" "list_all (is_digit ?U) (ascii ''28'')"
    "ascii '' '' \<noteq> []" "list_all isspace (ascii '' '')"
    "ascii '' '' \<noteq> []" "list_all isspace (ascii '' '')"
    "length (ascii ''2024'') = 4" "list_all (is_digit ?U) (ascii ''2024'')"
    by code_simp+
  have v: "valid_date (digits_val ?U (ascii ''2024'')) 8 (digits_val ?U (ascii ''28''))"
    by code_simp
  have f: "isoformat \<lparr>date_year = digits_val ?U (ascii ''2024''), date_month = 8,
      date_day = digits_val ?U (ascii ''28'')\<rparr> = ascii ''2024-08-28''"
    by code_simp
  have 1: "normalize_date ?U ?s = Inr (Some (ascii ''2024-08-28''))"
    using normalize_date_swedish [OF wf_sample_unicode a b e all_less_upt [OF c] d] v f
    by simp
  let ?t = "[1635, 1634] @ ascii '' augusti 2024''"
  have a': "try_parse_iso ?U ?t = Inr None"
    by code_simp
  have b': "lowercase ?U ?t =
      [] @ [1635, 1634] @ ascii '' '' @ ascii ''augusti'' @ ascii '' '' @ ascii ''2024'' @ []"
    by code_simp
  have e': "[1635, 1634] \<noteq> ([] :: ustr)" "length ([1635, 1634] :: ustr) \<le> 2"
    "list_all (is_digit ?U) [1635, 1634]"
    by code_simp+
  have v': "\<not> valid_date (digits_val ?U (ascii ''2024'')) 8 (digits_val ?U [1635, 1634])"
    by code_simp
  have 2: "normalize_date ?U ?t = Inr None"
    using normalize_date_swedish [OF wf_sample_unicode a' b' e' e(4-9) _ d] v'
    by simp
  from 1 2 show ?thesis by blast
qed

text \<open>
  The claim as the specification words it fails: the first text below is a valid Swedish
  date and is parsed, yet a text that contains it is unparseable when an earlier text
  matches the pattern with a word that is no month name, and a text that also holds an
  ISO date gives the ISO date.
\<close>

theorem normalize_date_swedish_counterexample:
  "normalize_date sample_unicode (ascii ''28 augusti 2024'') = Inr (Some (ascii ''2024-08-28'')) \<and>
   normalize_date sample_unicode (ascii ''Topp 10 platser 2024: 28 augusti 2024'') = Inr None \<and>
   normalize_date sample_unicode (ascii ''2023-01-01 28 augusti 2024'') =
     Inr (Some (ascii ''2023-01-01''))"
  by code_simp

subsection \<open>Every date the normalizer returns is a valid ISO date\<close>

lemma days_in_month_le: "days_in_month y m \<le> 31"
  by (simp add: days_in_month_def)

lemma isoformat_valid:
  assumes "valid_date y m d"
  shows "iso_shape (isoformat \<lparr>date_year = y, date_month = m, date_day = d\<rparr>) \<and>
         iso_valid (isoformat \<lparr>date_year = y, date_month = m, date_day = d\<rparr>)"
proof -
  define Y M D where "Y = zfill 4 (str_nat y)" and "M = zfill 2 (str_nat m)"
    and "D = zfill 2 (str_nat d)"
  from assms have b: "y < 10 ^ Suc 3" "m < 10 ^ Suc 1" "d < 10 ^ Suc 1"
    using days_in_month_le [of y m] by (auto simp: valid_date_def)
  have Y: "length Y = 4" "list_all ascii_digit Y" "ascii_digits_val Y = y"
    using zfill_str_nat [OF b(1)] by (simp_all add: Y_def)
  have M: "length M = 2" "list_all ascii_digit M" "ascii_digits_val M = m"
    using zfill_str_nat [OF b(2)] by (simp_all add: M_def numeral_2_eq_2)
  have D: "length D = 2" "list_all ascii_digit D" "ascii_digits_val D = d"
    using zfill_str_nat [OF b(3)] by (simp_all add: D_def numeral_2_eq_2)
  have iso: "isoformat \<lparr>date_year = y, date_month = m, date_day = d\<rparr> = Y @ [45] @ M @ [45] @ D"
    by (simp add: isoformat_def Y_def M_def D_def)
  have parts: "take 4 (Y @ [45] @ M @ [45] @ D) = Y"
    "take 2 (drop 5 (Y @ [45] @ M @ [45] @ D)) = M" "drop 8 (Y @ [45] @ M @ [45] @ D) = D"
    "(Y @ [45] @ M @ [45] @ D) ! 4 = 45" "(Y @ [45] @ M @ [45] @ D) ! 7 = 45"
    using Y(1) M(1) D(1) by (simp_all add: nth_append)
  show ?thesis
    unfolding iso iso_shape_def date_shape_def iso_valid_def parts
    using Y M D assms by simp
qed

lemma try_parse_iso_Some:
  assumes "try_parse_iso U s = Inr (Some r)"
  shows "iso_shape r \<and> iso_valid r"
proof -
  from assms obtain g where "try_fromisoformat g = Some r"
    by (auto simp: try_parse_iso_def Let_def split: option.splits)
  then show ?thesis using try_fromisoformat_Some by blast
qed

lemma try_parse_swedish_Some:
  assumes "try_parse_swedish U s = Inr (Some r)"
  shows "iso_shape r \<and> iso_valid r"
proof -
  from assms obtain y m d dt where "datetime y m d = Inr dt" "r = isoformat dt"
    by (auto simp: try_parse_swedish_def Let_def split: option.splits sum.splits if_splits)
  then have "valid_date y m d" "r = isoformat \<lparr>date_year = y, date_month = m, date_day = d\<rparr>"
    by (auto simp: datetime_def split: if_splits)
  then show ?thesis using isoformat_valid by blast
qed

lemma normalize_date_Some:
  assumes "normalize_date U s = Inr (Some r)"
  shows "iso_shape r \<and> iso_valid r"
proof -
  obtain a b where ab: "try_parse_iso U s = Inr a" "try_parse_swedish U s = Inr b"
    using try_parse_iso_Inr try_parse_swedish_Inr by blast
  with assms have "a = Some r \<or> b = Some r"
    by (auto simp: normalize_date_def split: if_splits)
  with ab show ?thesis
    using try_parse_iso_Some try_parse_swedish_Some by blast
qed

subsection \<open>The text cleaner\<close>

lemma isspace_32: "isspace 32"
  by (simp add: isspace_def)

lemma sub_spaces_Nil_iff: "sub_spaces s = [] \<longleftrightarrow> s = []"
  by (cases s) simp_all

lemma hd_sub_spaces: "s \<noteq> [] \<Longrightarrow> isspace (hd (sub_spaces s)) \<longleftrightarrow> isspace (hd s)"
  by (cases s) (simp_all add: isspace_32)

lemma no_ws_pair_Cons:
  "no_ws_pair (a # xs) \<longleftrightarrow> (xs = [] \<or> \<not> (isspace a \<and> isspace (hd xs))) \<and> no_ws_pair xs"
  by (cases xs) simp_all

lemma no_ws_pair_sub_spaces: "no_ws_pair (sub_spaces s)"
proof (induction s rule: sub_spaces.induct)
  case 1
  then show ?case by simp
next
  case (2 c cs)
  show ?case
  proof (cases "isspace c")
    case True
    note ih = "2.IH"(1) [OF True]
    show ?thesis
    proof (cases "dropWhile isspace cs = []")
      case e: True
      have "sub_spaces (c # cs) = 32 # sub_spaces (dropWhile isspace cs)"
        using \<open>isspace c\<close> by simp
      also have "\<dots> = [32]" by (simp only: e sub_spaces.simps)
      finally show ?thesis by simp
    next
      case False
      then have "\<not> isspace (hd (dropWhile isspace cs))" by (rule hd_dropWhile)
      with False have "\<not> isspace (hd (sub_spaces (dropWhile isspace cs)))"
        by (simp add: hd_sub_spaces)
      with ih \<open>isspace c\<close> show ?thesis
        by (simp add: no_ws_pair_Cons)
    qed
  next
    case False
    with "2.IH"(2) [OF False] show ?thesis
      by (simp add: no_ws_pair_Cons)
  qed
qed

lemma sub_spaces_only_space: "c \<in> set (sub_spaces s) \<Longrightarrow> isspace c \<Longrightarrow> c = 32"
proof (induction s rule: sub_spaces.induct)
  case 1
  then show ?case by simp
next
  case (2 d ds)
  then show ?case by (auto split: if_splits)
qed

lemma no_ws_pair_drop: "no_ws_pair xs \<Longrightarrow> no_ws_pair (drop k xs)"
proof (induction xs arbitrary: k)
  case Nil
  then show ?case by simp
next
  case (Cons a xs)
  then show ?case by (cases k) (simp_all add: no_ws_pair_Cons)
qed

lemma hd_take: "take j xs = [] \<or> hd (take j xs) = hd xs"
  by (cases j; cases xs) simp_all

lemma no_ws_pair_take: "no_ws_pair xs \<Longrightarrow> no_ws_pair (take k xs)"
proof (induction xs arbitrary: k)
  case Nil
  then show ?case by simp
next
  case (Cons a xs)
  show ?case
  proof (cases k)
    case 0
    then show ?thesis by simp
  next
    case (Suc j)
    from Cons.prems have a: "xs = [] \<or> \<not> (isspace a \<and> isspace (hd xs))" and b: "no_ws_pair xs"
      by (simp_all add: no_ws_pair_Cons)
    from b have "no_ws_pair (take j xs)" by (rule Cons.IH)
    moreover have "take j xs = [] \<or> \<not> (isspace a \<and> isspace (hd (take j xs)))"
      using a hd_take [of j xs] by auto
    ultimately show ?thesis
      unfolding Suc by (simp add: no_ws_pair_Cons)
  qed
qed

lemma strip_part: "\<exists>k n. strip s = take n (drop k s)"
proof -
  obtain a b where "a @ strip s @ b = s" using strip_decomp by blast
  then have "take (length (strip s)) (drop (length a) s) = strip s"
    by (metis append_eq_conv_conj)
  then show ?thesis by metis
qed

lemma no_ws_pair_strip: "no_ws_pair s \<Longrightarrow> no_ws_pair (strip s)"
proof -
  assume a: "no_ws_pair s"
  obtain k n where "strip s = take n (drop k s)" using strip_part by blast
  with a show ?thesis by (simp add: no_ws_pair_take no_ws_pair_drop)
qed

lemma set_strip: "set (strip s) \<subseteq> set s"
proof -
  obtain k n where "strip s = take n (drop k s)" using strip_part by blast
  then show ?thesis
    using set_take_subset [of n "drop k s"] set_drop_subset [of k s] by auto
qed

lemma trimmed_strip: "trimmed (strip s)"
proof (cases "strip s = []")
  case True
  then show ?thesis by (simp add: trimmed_def)
next
  case False
  define t where "t = dropWhile isspace s"
  define r where "r = dropWhile isspace (rev t)"
  have s: "strip s = rev r" by (simp add: strip_def t_def r_def)
  with False have rne: "r \<noteq> []" by simp
  then have h: "\<not> isspace (hd r)" unfolding r_def by (rule hd_dropWhile)
  then have l: "\<not> isspace (last (rev r))" using rne by (simp add: last_rev)
  obtain w where w: "rev r @ w = t"
    using rstrip_decomp [of isspace t] by (auto simp: r_def)
  from rne have "t \<noteq> []" using w by auto
  then have "\<not> isspace (hd t)" unfolding t_def by (rule hd_dropWhile)
  moreover have "hd t = hd (rev r)" using w rne by (metis hd_append2 rev_is_Nil_conv)
  ultimately show ?thesis
    using l s by (simp add: trimmed_def)
qed

lemma strip_trimmed: "trimmed s \<Longrightarrow> strip s = s"
proof (cases s)
  case Nil
  then show ?thesis by (simp add: strip_def)
next
  case (Cons c cs)
  assume "trimmed s"
  with Cons have h: "\<not> isspace c" and l: "\<not> isspace (last s)"
    by (simp_all add: trimmed_def)
  from Cons obtain x xs where r: "rev s = x # xs" by (cases "rev s") auto
  have "last s = hd (rev s)" using Cons by (simp add: hd_rev)
  with r have "x = last s" by simp
  with l have "dropWhile isspace (x # xs) = x # xs" by simp
  then have "dropWhile isspace (rev s) = rev s" by (simp only: r)
  moreover from h Cons have "dropWhile isspace s = s" by simp
  ultimately show ?thesis by (simp add: strip_def)
qed

lemma sub_spaces_fixed:
  "no_ws_pair s \<Longrightarrow> \<forall>c \<in> set s. isspace c \<longrightarrow> c = 32 \<Longrightarrow> sub_spaces s = s"
proof (induction s rule: sub_spaces.induct)
  case 1
  then show ?case by simp
next
  case (2 c cs)
  from "2.prems" have p: "cs = [] \<or> \<not> (isspace c \<and> isspace (hd cs))" and q: "no_ws_pair cs"
    and r: "\<forall>d \<in> set cs. isspace d \<longrightarrow> d = 32"
    by (simp_all add: no_ws_pair_Cons)
  show ?case
  proof (cases "isspace c")
    case True
    with "2.prems" have c: "c = 32" by simp
    from p True have d: "dropWhile isspace cs = cs" by (cases cs) auto
    have "sub_spaces (dropWhile isspace cs) = dropWhile isspace cs"
      using "2.IH"(1) [OF True] q r by (simp only: d)
    with True c d show ?thesis by simp
  next
    case False
    with "2.IH"(2) [OF False q r] show ?thesis by simp
  qed
qed

lemma normalize_whitespace_props:
  "no_ws_pair (normalize_whitespace s) \<and> trimmed (normalize_whitespace s) \<and>
   normalize_whitespace (normalize_whitespace s) = normalize_whitespace s"
proof -
  let ?y = "normalize_whitespace s"
  have a: "no_ws_pair ?y"
    unfolding normalize_whitespace_def by (intro no_ws_pair_strip no_ws_pair_sub_spaces)
  have b: "trimmed ?y"
    unfolding normalize_whitespace_def by (rule trimmed_strip)
  have "\<forall>c \<in> set ?y. isspace c \<longrightarrow> c = 32"
    unfolding normalize_whitespace_def
    using set_strip [of "sub_spaces s"] sub_spaces_only_space by blast
  with a have "sub_spaces ?y = ?y" by (rule sub_spaces_fixed)
  then have "normalize_whitespace ?y = strip ?y" by (simp add: normalize_whitespace_def)
  with b have "normalize_whitespace ?y = ?y" by (simp add: strip_trimmed)
  with a b show ?thesis by simp
qed


text \<open>
  Claim C5, as the code has it.  Whenever \<open>clean_text\<close> returns, its result has no two
  neighbouring whitespace characters and no whitespace at either end, and normalizing its
  whitespace again changes nothing.  Cleaning the result a second time gives the result
  again whenever the parser reads the result back as plain text, that is whenever
  \<open>get_text(" ")\<close> of the parsed result is the result itself.
\<close>

theorem clean_text_normal:
  assumes "clean_text L x = Inr y"
  shows "no_ws_pair y \<and> trimmed y \<and> normalize_whitespace y = y \<and>
         (\<forall>soup. BeautifulSoup L y = Inr soup \<and> get_text L soup [32] = y \<longrightarrow>
            clean_text L y = Inr y)"
proof -
  from assms obtain soup where y: "y = normalize_whitespace (get_text L soup [32])"
    by (auto simp: clean_text_def split: sum.splits)
  have p: "no_ws_pair y \<and> trimmed y \<and> normalize_whitespace y = y"
    unfolding y by (rule normalize_whitespace_props)
  then have "clean_text L y = Inr y"
    if "BeautifulSoup L y = Inr soup2" "get_text L soup2 [32] = y" for soup2
    using that by (simp add: clean_text_def)
  with p show ?thesis by blast
qed

theorem clean_text_normal_witness:
  "clean_text html_bs4 (ascii ''  <p>Hej   <b>alla</b></p> barn '') = Inr (ascii ''Hej alla barn'') \<and>
   no_ws_pair (ascii ''Hej alla barn'') \<and> trimmed (ascii ''Hej alla barn'') \<and>
   clean_text html_bs4 (ascii ''Hej alla barn'') = Inr (ascii ''Hej alla barn'')"
proof -
  have 1: "clean_text html_bs4 (ascii ''  <p>Hej   <b>alla</b></p> barn '') =
      Inr (ascii ''Hej alla barn'')"
    by code_simp
  have 2: "BeautifulSoup html_bs4 (ascii ''Hej alla barn'') =
      Inr (Elem (ascii ''[document]'') [] [Text (ascii ''Hej alla barn'')], [])"
    by code_simp
  have 3: "get_text html_bs4 (Elem (ascii ''[document]'') [] [Text (ascii ''Hej alla barn'')], [])
      [32] = ascii ''Hej alla barn''"
    by code_simp
  from clean_text_normal [OF 1] 1 2 3 show ?thesis by blast
qed

text \<open>
  The claim as the specification words it fails: cleaning is not idempotent on a text
  whose character references spell markup.  The first cleaning turns the references into
  the characters \<open><b>hi</b>\<close>, which the second cleaning reads as an element and removes.
\<close>

theorem clean_text_normal_counterexample:
  "clean_text html_bs4 (ascii ''&lt;b&gt;hi&lt;/b&gt;'') = Inr (ascii ''<b>hi</b>'') \<and>
   clean_text html_bs4 (ascii ''<b>hi</b>'') = Inr (ascii ''hi'') \<and>
   ascii ''<b>hi</b>'' \<noteq> ascii ''hi''"
  by code_simp

subsection \<open>The container of an anchor\<close>

lemma climb_ancestors:
  "climb L n a =
     (case List.find (is_block L) (ancestors L n a) of
        Some c \<Rightarrow> c
      | None \<Rightarrow> last (a # ancestors L n a))"
proof (induction n arbitrary: a)
  case 0
  then show ?case by simp
next
  case (Suc n)
  show ?case
  proof (cases "tag_parent L a")
    case None
    then show ?thesis by simp
  next
    case (Some p)
    then show ?thesis
      using Suc.IH [of p] by (simp split: option.splits)
  qed
qed

text \<open>
  Claim C6, as the code has it.  The container of an anchor is the first of its ancestors
  within three levels whose tag is \<open>article\<close>, \<open>li\<close> or \<open>div\<close>.  When there is none, it is the
  highest ancestor reached, that is the third ancestor, or the root of the document when
  the root is nearer; it is the anchor itself only when the anchor has no parent.
\<close>

theorem find_container_ancestors:
  "find_container L a =
     (case List.find (is_block L) (ancestors L 3 a) of
        Some c \<Rightarrow> c
      | None \<Rightarrow> last (a # ancestors L 3 a))"
  unfolding find_container_def by (rule climb_ancestors)

text \<open>
  The claim as the specification words it fails where no ancestor within three levels is
  an \<open>article\<close>, \<open>li\<close> or \<open>div\<close>: in the document \<open>orphan_page\<close> the anchor lies in a \<open>span\<close>
  below the root, the container is the root and not the anchor, and the title of the item
  is the text of the heading beside the \<open>span\<close>, not the text of the anchor.
\<close>

theorem find_container_ancestors_counterexample:
  "(case BeautifulSoup html_bs4
           (ascii (''<h2>Other</h2><span><a href='' @ [CHR 0x22] @ ''/nyheter/x'' @ [CHR 0x22] @
                   ''>T</a></span>'')) of
      Inl e \<Rightarrow> False
    | Inr soup \<Rightarrow>
        (case select_links html_bs4 soup of
           [a] \<Rightarrow>
             List.find (is_block html_bs4) (ancestors html_bs4 3 a) = None \<and>
             find_container html_bs4 a = soup \<and> find_container html_bs4 a \<noteq> a \<and>
             get_text html_bs4 a [32] = ascii ''T'' \<and>
             extract_main_items html_bs4 soup 5 =
               Inr [\<lparr>item_title = ascii ''Other'', item_date_raw = ascii ''Other T'',
                     item_url = ascii ''https://www.linkoping.se/nyheter/x''\<rparr>]
         | _ \<Rightarrow> False))"
  by code_simp

subsection \<open>The detail extractor\<close>






subsection \<open>What the index holds and what a search returns\<close>









subsection \<open>The listing extractor\<close>

lemma item_of_anchor_url: "item_of_anchor L a url = Inr (Some it) \<Longrightarrow> item_url it = url"
  by (auto simp: item_of_anchor_def Let_def split: sum.splits option.splits if_splits)

lemma comes_from_skip:
  assumes "\<not> (anchor_url L a = Some (item_url it) \<and> item_of_anchor L a (item_url it) \<noteq> Inr None)"
    and "comes_from L as it"
  shows "comes_from L (a # as) it"
  using assms by (simp add: comes_from_def)

lemma comes_from_here:
  assumes "anchor_url L a = Some url" "item_of_anchor L a url = Inr (Some it)"
  shows "comes_from L (a # as) it"
proof -
  from assms(2) have "item_url it = url" by (rule item_of_anchor_url)
  with assms show ?thesis by (simp add: comes_from_def)
qed

lemma main_loop_items:
  assumes "main_loop L m as items seen = Inr res"
    and "seen = item_url ` set items" and "distinct (map item_url items)"
    and "int (length items) < m"
  shows "\<exists>new. res = items @ new \<and> distinct (map item_url res) \<and> int (length res) \<le> m \<and>
     (\<forall>it \<in> set new. comes_from L as it)"
  using assms
proof (induction as arbitrary: items seen)
  case Nil
  then show ?case by simp
next
  case (Cons a as)
  show ?case
  proof (cases "anchor_url L a")
    case None
    with Cons.prems(1) have "main_loop L m as items seen = Inr res" by simp
    from Cons.IH [OF this Cons.prems(2,3,4)] obtain new where
      n: "res = items @ new" "distinct (map item_url res)" "int (length res) \<le> m"
        "\<forall>it \<in> set new. comes_from L as it"
      by blast
    from n(4) None have "\<forall>it \<in> set new. comes_from L (a # as) it"
      by (simp add: comes_from_skip)
    with n show ?thesis by blast
  next
    case (Some url)
    show ?thesis
    proof (cases "url \<in> seen")
      case True
      with Cons.prems(1) Some have "main_loop L m as items seen = Inr res" by simp
      from Cons.IH [OF this Cons.prems(2,3,4)] obtain new where
        n: "res = items @ new" "distinct (map item_url res)" "int (length res) \<le> m"
          "\<forall>it \<in> set new. comes_from L as it"
        by blast
      have "comes_from L (a # as) it" if "it \<in> set new" for it
      proof -
        from n(1,2) have "item_url ` set items \<inter> item_url ` set new = {}" by simp
        moreover from that have "item_url it \<in> item_url ` set new" by (rule imageI)
        ultimately have "item_url it \<notin> item_url ` set items" by (metis IntI empty_iff)
        moreover from True Cons.prems(2) have "url \<in> item_url ` set items" by simp
        ultimately have "url \<noteq> item_url it" by metis
        with Some n(4) that show ?thesis by (simp add: comes_from_skip)
      qed
      with n show ?thesis by blast
    next
      case False
      show ?thesis
      proof (cases "item_of_anchor L a url")
        case (Inl e)
        with Cons.prems(1) Some False show ?thesis by simp
      next
        case (Inr r)
        show ?thesis
        proof (cases r)
          case None
          with Cons.prems(1) Some False Inr have "main_loop L m as items seen = Inr res" by simp
          from Cons.IH [OF this Cons.prems(2,3,4)] obtain new where
            n: "res = items @ new" "distinct (map item_url res)" "int (length res) \<le> m"
              "\<forall>it \<in> set new. comes_from L as it"
            by blast
          have "comes_from L (a # as) it" if "it \<in> set new" for it
          proof (cases "url = item_url it")
            case True
            with Inr None have "item_of_anchor L a (item_url it) = Inr None" by simp
            with n(4) that show ?thesis by (simp add: comes_from_skip)
          next
            case False
            with Some n(4) that show ?thesis by (simp add: comes_from_skip)
          qed
          with n show ?thesis by blast
        next
          case (Some it0)
          with Inr have i0: "item_of_anchor L a url = Inr (Some it0)" by simp
          then have u0: "item_url it0 = url" by (rule item_of_anchor_url)
          have c0: "comes_from L (a # as) it0"
            using \<open>anchor_url L a = Some url\<close> i0 by (rule comes_from_here)
          have d0: "distinct (map item_url (items @ [it0]))"
            using Cons.prems(2,3) False u0 by simp
          show ?thesis
          proof (cases "m \<le> int (length (items @ [it0]))")
            case True
            with Cons.prems(1) \<open>anchor_url L a = Some url\<close> False i0
            have "res = items @ [it0]" by simp
            moreover have "int (length (items @ [it0])) \<le> m" using Cons.prems(4) by simp
            ultimately show ?thesis using d0 c0 by simp
          next
            case big: False
            with Cons.prems(1) \<open>anchor_url L a = Some url\<close> False i0
            have run: "main_loop L m as (items @ [it0]) (insert url seen) = Inr res" by simp
            have s: "insert url seen = item_url ` set (items @ [it0])"
              using Cons.prems(2) u0 by auto
            have l: "int (length (items @ [it0])) < m" using big by simp
            from Cons.IH [OF run s d0 l] obtain new where
              n: "res = (items @ [it0]) @ new" "distinct (map item_url res)"
                "int (length res) \<le> m" "\<forall>it \<in> set new. comes_from L as it"
              by blast
            have "comes_from L (a # as) it" if "it \<in> set new" for it
            proof -
              from n(1,2) have "item_url it0 \<notin> item_url ` set new" by simp
              moreover from that have "item_url it \<in> item_url ` set new" by (rule imageI)
              ultimately have "item_url it \<noteq> item_url it0" by metis
              with u0 have "url \<noteq> item_url it" by simp
              with \<open>anchor_url L a = Some url\<close> n(4) that show ?thesis
                by (simp add: comes_from_skip)
            qed
            with c0 have "\<forall>it \<in> set (it0 # new). comes_from L (a # as) it" by simp
            moreover have "res = items @ (it0 # new)" using n(1) by simp
            ultimately show ?thesis using n(2,3) by blast
          qed
        qed
      qed
    qed
  qed
qed

text \<open>
  Claim C2, as the code has it.  For a cap of at least one, \<open>extract_main_items\<close> returns
  at most \<open>max_items\<close> items, no two of them with the same URL, and each of them comes from
  the first anchor in document order, among those that resolve to its URL, that is not
  passed over for an empty title.
\<close>

theorem extract_main_items_cap:
  assumes "extract_main_items L soup max_items = Inr items" and "1 \<le> max_items"
  shows "int (length items) \<le> max_items \<and> distinct (map item_url items) \<and>
         (\<forall>it \<in> set items. comes_from L (select_links L soup) it)"
proof -
  from assms(1) have "main_loop L max_items (select_links L soup) [] {} = Inr items"
    by (simp add: extract_main_items_def)
  from main_loop_items [OF this] assms(2) show ?thesis by simp
qed

theorem extract_main_items_cap_witness:
  "extract_main_items html_bs4 (projr (BeautifulSoup html_bs4 listing_page)) 5 =
     Inr [\<lparr>item_title = ascii ''Ny park'', item_date_raw = ascii ''2024-08-28T10:15'',
           item_url = ascii ''https://www.linkoping.se/nyheter/park''\<rparr>,
          \<lparr>item_title = ascii ''Bron rustas'', item_date_raw = ascii ''Bron rustas 32 augusti 2024'',
           item_url = ascii ''https://www.linkoping.se/nyheter/bro''\<rparr>] \<and>
   length (select_links html_bs4 (projr (BeautifulSoup html_bs4 listing_page))) = 3 \<and>
   distinct [ascii ''https://www.linkoping.se/nyheter/park'',
             ascii ''https://www.linkoping.se/nyheter/bro'']"
proof -
  have 1: "extract_main_items html_bs4 (projr (BeautifulSoup html_bs4 listing_page)) 5 =
     Inr [\<lparr>item_title = ascii ''Ny park'', item_date_raw = ascii ''2024-08-28T10:15'',
           item_url = ascii ''https://www.linkoping.se/nyheter/park''\<rparr>,
          \<lparr>item_title = ascii ''Bron rustas'', item_date_raw = ascii ''Bron rustas 32 augusti 2024'',
           item_url = ascii ''https://www.linkoping.se/nyheter/bro''\<rparr>]"
    by code_simp
  have 2: "length (select_links html_bs4 (projr (BeautifulSoup html_bs4 listing_page))) = 3"
    by code_simp
  have 3: "(1 :: int) \<le> 5" by simp
  from extract_main_items_cap [OF 1 3] have
    "distinct (map item_url
       [\<lparr>item_title = ascii ''Ny park'', item_date_raw = ascii ''2024-08-28T10:15'',
           item_url = ascii ''https://www.linkoping.se/nyheter/park''\<rparr>,
          \<lparr>item_title = ascii ''Bron rustas'', item_date_raw = ascii ''Bron rustas 32 augusti 2024'',
           item_url = ascii ''https://www.linkoping.se/nyheter/bro''\<rparr>])"
    by (rule conjunct2 [THEN conjunct1])
  then have "distinct [ascii ''https://www.linkoping.se/nyheter/park'',
             ascii ''https://www.linkoping.se/nyheter/bro'']"
    by simp
  with 1 2 show ?thesis by blast
qed

text \<open>
  The claim as the specification words it fails twice.  With a cap of zero the extractor
  returns one item, since the cap is tested after an item is appended.  And the anchor kept
  for a URL need not be the first one in document order: an anchor that gives an empty
  title is passed over before its URL is recorded, so a later anchor with the same URL is
  kept; below, the item comes from the second anchor.
\<close>

theorem extract_main_items_cap_counterexample:
  "(case extract_main_items html_bs4 (projr (BeautifulSoup html_bs4 listing_page)) 0 of
      Inl e \<Rightarrow> False
    | Inr items \<Rightarrow> length items = 1) \<and>
   (case BeautifulSoup html_bs4
           (ascii (''<ul><li><a href='' @ [CHR 0x22] @ ''/nyheter/a'' @ [CHR 0x22] @ ''></a></li>'' @
                   ''<li><a href='' @ [CHR 0x22] @ ''/nyheter/a'' @ [CHR 0x22] @ ''>Nyhet</a></li></ul>'')) of
      Inl e \<Rightarrow> False
    | Inr soup \<Rightarrow>
        (case select_links html_bs4 soup of
           [a1, a2] \<Rightarrow>
             anchor_url html_bs4 a1 = Some (ascii ''https://www.linkoping.se/nyheter/a'') \<and>
             anchor_url html_bs4 a2 = Some (ascii ''https://www.linkoping.se/nyheter/a'') \<and>
             item_of_anchor html_bs4 a1 (ascii ''https://www.linkoping.se/nyheter/a'') = Inr None \<and>
             extract_main_items html_bs4 soup 5 =
               Inr [\<lparr>item_title = ascii ''Nyhet'', item_date_raw = ascii ''Nyhet'',
                     item_url = ascii ''https://www.linkoping.se/nyheter/a''\<rparr>] \<and>
             item_of_anchor html_bs4 a2 (ascii ''https://www.linkoping.se/nyheter/a'') =
               Inr (Some \<lparr>item_title = ascii ''Nyhet'', item_date_raw = ascii ''Nyhet'',
                     item_url = ascii ''https://www.linkoping.se/nyheter/a''\<rparr>)
         | _ \<Rightarrow> False))"
  by code_simp

subsection \<open>The scrape orchestrator\<close>

lemma fetch_content_fails:
  "detail_fails L http_get url w \<Longrightarrow> fst (fetch_content L http_get url w) = []"
  by (cases "http_get url w")
     (auto simp: detail_fails_def fetch_content_def split: sum.splits)

lemma fetched_fails:
  "(c, True) \<in> set (fst (fetched L http_get urls w)) \<Longrightarrow> c = []"
proof (induction urls arbitrary: w)
  case Nil
  then show ?case by simp
next
  case (Cons url urls)
  obtain c1 w1 where f: "fetch_content L http_get url w = (c1, w1)"
    by (cases "fetch_content L http_get url w")
  obtain rest w2 where r: "fetched L http_get urls w1 = (rest, w2)"
    by (cases "fetched L http_get urls w1")
  from Cons.prems f r have "(c, True) = (c1, detail_fails L http_get url w) \<or> (c, True) \<in> set rest"
    by simp
  then show ?case
  proof
    assume "(c, True) = (c1, detail_fails L http_get url w)"
    then have "c = c1" "detail_fails L http_get url w" by simp_all
    with fetch_content_fails [of L http_get url w] f show ?thesis by simp
  next
    assume "(c, True) \<in> set rest"
    with Cons.IH [of w1] r show ?thesis by simp
  qed
qed

text \<open>What the loop appends for an item, given the content its detail page yields.\<close>

lemma scrape_loop_step:
  assumes "fetch_content L http_get (item_url it) w = (content, w1)"
    and "utf8_encodable (item_url it)"
  shows "\<exists>d. (d = [] \<or> iso_shape d \<and> iso_valid d) \<and>
     scrape_loop U L md5 http_get (it # main_items) results w =
     scrape_loop U L md5 http_get main_items
       (results @ [\<lparr>article_id = md5 (item_url it), article_title = item_title it,
                     article_date = d, article_url = item_url it,
                     article_content = content\<rparr>]) w1"
proof -
  obtain r where r: "normalize_date U (item_date_raw it) = Inr r"
    using normalize_date_Inr by blast
  let ?d = "case r of None \<Rightarrow> [] | Some iso_date \<Rightarrow> iso_date"
  have "?d = [] \<or> iso_shape ?d \<and> iso_valid ?d"
    using normalize_date_Some [of U "item_date_raw it"] r by (cases r) simp_all
  moreover have "scrape_loop U L md5 http_get (it # main_items) results w =
     scrape_loop U L md5 http_get main_items
       (results @ [\<lparr>article_id = md5 (item_url it), article_title = item_title it,
                     article_date = ?d, article_url = item_url it,
                     article_content = content\<rparr>]) w1"
    using assms r by simp
  ultimately show ?thesis by blast
qed

lemma scrape_loop_abort:
  assumes "fetch_content L http_get (item_url it) w = (content, w1)"
    and "\<not> utf8_encodable (item_url it)"
  shows "scrape_loop U L md5 http_get (it # main_items) results w = (Inl UnicodeEncodeError, w1)"
proof -
  obtain r where r: "normalize_date U (item_date_raw it) = Inr r"
    using normalize_date_Inr by blast
  with assms show ?thesis by simp
qed

lemma scrape_loop_Inr:
  assumes "scrape_loop U L md5 http_get main_items results w = (Inr rs, w')"
  shows "\<exists>new. rs = results @ new \<and> list_all2 (record_ok md5) main_items new \<and>
     map article_content new = map fst (fst (fetched L http_get (map item_url main_items) w)) \<and>
     w' = snd (fetched L http_get (map item_url main_items) w)"
  using assms
proof (induction main_items arbitrary: results w)
  case Nil
  then show ?case by simp
next
  case (Cons it main_items)
  obtain content w1 where f: "fetch_content L http_get (item_url it) w = (content, w1)"
    by (cases "fetch_content L http_get (item_url it) w")
  have enc: "utf8_encodable (item_url it)"
  proof (rule ccontr)
    assume "\<not> utf8_encodable (item_url it)"
    from scrape_loop_abort [OF f this] Cons.prems show False by simp
  qed
  from scrape_loop_step [OF f enc, of U md5 main_items results] obtain d
    where d: "d = [] \<or> iso_shape d \<and> iso_valid d"
      and s: "scrape_loop U L md5 http_get (it # main_items) results w =
        scrape_loop U L md5 http_get main_items
          (results @ [\<lparr>article_id = md5 (item_url it), article_title = item_title it,
                        article_date = d, article_url = item_url it,
                        article_content = content\<rparr>]) w1"
    by blast
  let ?a = "\<lparr>article_id = md5 (item_url it), article_title = item_title it,
             article_date = d, article_url = item_url it, article_content = content\<rparr>"
  from Cons.prems s have "scrape_loop U L md5 http_get main_items (results @ [?a]) w1 = (Inr rs, w')"
    by simp
  from Cons.IH [OF this] obtain new where
    n: "rs = (results @ [?a]) @ new" "list_all2 (record_ok md5) main_items new"
      "map article_content new = map fst (fst (fetched L http_get (map item_url main_items) w1))"
      "w' = snd (fetched L http_get (map item_url main_items) w1)"
    by blast
  obtain rest w2 where r: "fetched L http_get (map item_url main_items) w1 = (rest, w2)"
    by (cases "fetched L http_get (map item_url main_items) w1")
  have ok: "record_ok md5 it ?a" using d by (simp add: record_ok_def)
  have "rs = results @ (?a # new)" using n(1) by simp
  moreover have "list_all2 (record_ok md5) (it # main_items) (?a # new)" using ok n(2) by simp
  moreover have "map article_content (?a # new) =
      map fst (fst (fetched L http_get (map item_url (it # main_items)) w))"
    using f r n(3) by simp
  moreover have "w' = snd (fetched L http_get (map item_url (it # main_items)) w)"
    using f r n(4) by simp
  ultimately show ?case by blast
qed

lemma scrape_loop_Inl:
  assumes "scrape_loop U L md5 http_get main_items results w = (Inl e, w')"
  shows "e = UnicodeEncodeError \<and> (\<exists>it \<in> set main_items. \<not> utf8_encodable (item_url it))"
  using assms
proof (induction main_items arbitrary: results w)
  case Nil
  then show ?case by simp
next
  case (Cons it main_items)
  obtain content w1 where f: "fetch_content L http_get (item_url it) w = (content, w1)"
    by (cases "fetch_content L http_get (item_url it) w")
  show ?case
  proof (cases "utf8_encodable (item_url it)")
    case True
    from scrape_loop_step [OF f True, of U md5 main_items results] Cons.prems obtain a where
      "scrape_loop U L md5 http_get main_items (results @ [a]) w1 = (Inl e, w')"
      by auto
    from Cons.IH [OF this] show ?thesis by auto
  next
    case False
    from scrape_loop_abort [OF f False] Cons.prems show ?thesis
      using False by simp
  qed
qed

lemma scrape_loop_returns:
  assumes "\<forall>it \<in> set main_items. utf8_encodable (item_url it)"
  shows "\<exists>rs. fst (scrape_loop U L md5 http_get main_items results w) = Inr rs"
proof (cases "scrape_loop U L md5 http_get main_items results w")
  case (Pair r w')
  show ?thesis
  proof (cases r)
    case (Inl e)
    with Pair scrape_loop_Inl [of U L md5 http_get main_items results w e w'] assms
    show ?thesis by blast
  next
    case (Inr rs)
    with Pair show ?thesis by simp
  qed
qed

lemma scrape_Inr:
  assumes "scrape U L md5 http_get w = (Inr rs, w')"
  shows "\<exists>main_items. list_all2 (record_ok md5) main_items rs"
proof -
  from assms obtain main_items w1 where
    "scrape_loop U L md5 http_get main_items [] w1 = (Inr rs, w')"
    by (auto simp: scrape_def split: prod.splits sum.splits)
  from scrape_loop_Inr [OF this] show ?thesis by auto
qed

lemma record_ok_member:
  assumes "list_all2 (record_ok md5) main_items rs" "a \<in> set rs"
  shows "\<exists>it. record_ok md5 it a"
proof -
  from assms(2) obtain i where "i < length rs" "rs ! i = a" by (auto simp: in_set_conv_nth)
  with assms(1) have "record_ok md5 (main_items ! i) a" by (auto simp: list_all2_conv_all_nth)
  then show ?thesis by blast
qed

lemma record_ok_maps:
  assumes "list_all2 (record_ok md5) main_items new"
  shows "map article_url new = map item_url main_items \<and>
         map article_title new = map item_title main_items"
  using assms by (induction rule: list_all2_induct) (simp_all add: record_ok_def)

lemma example_scrape:
  "scrape sample_unicode html_bs4 toy_digest example_site () =
     (Inr [\<lparr>article_id = ascii ''md5:https://www.linkoping.se/nyheter/park'',
             article_title = ascii ''Ny park'', article_date = ascii ''2024-08-28'',
             article_url = ascii ''https://www.linkoping.se/nyheter/park'',
             article_content = ascii ''Parken oppnar i maj.''\<rparr>,
           \<lparr>article_id = ascii ''md5:https://www.linkoping.se/nyheter/bro'',
             article_title = ascii ''Bron rustas'', article_date = [],
             article_url = ascii ''https://www.linkoping.se/nyheter/bro'',
             article_content = []\<rparr>], ())"
  by code_simp

text \<open>
  Claim C1.  In every record a scrape run returns, the id is the hash of the URL of the
  record; so two records of any two runs with equal URLs have equal ids, whatever their
  titles, dates and contents.
\<close>

theorem scrape_ids:
  assumes "scrape U L md5 http_get w = (Inr rs, w')"
    and "scrape U' L' md5 http_get' v = (Inr rs', v')"
    and "a \<in> set rs" and "b \<in> set rs'"
  shows "article_id a = md5 (article_url a) \<and> article_id b = md5 (article_url b) \<and>
         (article_url a = article_url b \<longrightarrow> article_id a = article_id b)"
proof -
  from scrape_Inr [OF assms(1)] assms(3) obtain it where "record_ok md5 it a"
    using record_ok_member by blast
  then have a: "article_id a = md5 (article_url a)" by (simp add: record_ok_def)
  from scrape_Inr [OF assms(2)] assms(4) obtain it' where "record_ok md5 it' b"
    using record_ok_member by blast
  then have b: "article_id b = md5 (article_url b)" by (simp add: record_ok_def)
  from a b show ?thesis by simp
qed

theorem scrape_ids_witness:
  "article_id \<lparr>article_id = ascii ''md5:https://www.linkoping.se/nyheter/bro'',
               article_title = ascii ''Bron rustas'', article_date = [],
               article_url = ascii ''https://www.linkoping.se/nyheter/bro'',
               article_content = []\<rparr> =
   toy_digest (ascii ''https://www.linkoping.se/nyheter/bro'')"
proof -
  let ?a = "\<lparr>article_id = ascii ''md5:https://www.linkoping.se/nyheter/park'',
             article_title = ascii ''Ny park'', article_date = ascii ''2024-08-28'',
             article_url = ascii ''https://www.linkoping.se/nyheter/park'',
             article_content = ascii ''Parken oppnar i maj.''\<rparr>"
  let ?b = "\<lparr>article_id = ascii ''md5:https://www.linkoping.se/nyheter/bro'',
               article_title = ascii ''Bron rustas'', article_date = [],
               article_url = ascii ''https://www.linkoping.se/nyheter/bro'',
               article_content = []\<rparr>"
  have a: "?a \<in> set [?a, ?b]" and b: "?b \<in> set [?a, ?b]" by simp_all
  from scrape_ids [OF example_scrape example_scrape a b] show ?thesis by simp
qed

text \<open>
  Claim C8.  The loop over the candidates aborts only when a URL has no UTF-8 encoding
  for the hash, never because a detail page fails.  When every URL has an encoding, it
  returns one record for every candidate, in the order of the candidates, with the URL and
  the title of the candidate; the content of a record is what the \<open>try\<close> block yields for
  its detail page, and that is the empty text when the request or the extraction fails.
\<close>

theorem scrape_loop_keeps_all:
  assumes "scrape_loop U L md5 http_get main_items results w = (r, w')"
  shows "(\<forall>e. r = Inl e \<longrightarrow>
            e = UnicodeEncodeError \<and> (\<exists>it \<in> set main_items. \<not> utf8_encodable (item_url it))) \<and>
         ((\<forall>it \<in> set main_items. utf8_encodable (item_url it)) \<longrightarrow>
            (\<exists>new. r = Inr (results @ new) \<and>
               map article_url new = map item_url main_items \<and>
               map article_title new = map item_title main_items \<and>
               map article_content new =
                 map fst (fst (fetched L http_get (map item_url main_items) w)))) \<and>
         (\<forall>c. (c, True) \<in> set (fst (fetched L http_get (map item_url main_items) w)) \<longrightarrow> c = [])"
proof -
  have 1: "e = UnicodeEncodeError \<and> (\<exists>it \<in> set main_items. \<not> utf8_encodable (item_url it))"
    if "r = Inl e" for e
    using scrape_loop_Inl [of U L md5 http_get main_items results w e w'] assms that by simp
  have 2: "\<exists>new. r = Inr (results @ new) \<and>
               map article_url new = map item_url main_items \<and>
               map article_title new = map item_title main_items \<and>
               map article_content new =
                 map fst (fst (fetched L http_get (map item_url main_items) w))"
    if enc: "\<forall>it \<in> set main_items. utf8_encodable (item_url it)"
  proof -
    from scrape_loop_returns [OF enc, of U L md5 http_get results w] assms
    obtain rs where rs: "r = Inr rs" by auto
    from scrape_loop_Inr [OF assms [unfolded rs]] obtain new where
      n: "rs = results @ new" "list_all2 (record_ok md5) main_items new"
        "map article_content new = map fst (fst (fetched L http_get (map item_url main_items) w))"
      by blast
    from record_ok_maps [OF n(2)] n(1,3) rs show ?thesis by blast
  qed
  have 3: "c = []" if "(c, True) \<in> set (fst (fetched L http_get (map item_url main_items) w))" for c
    using that by (rule fetched_fails)
  from 1 2 3 show ?thesis by blast
qed

theorem scrape_loop_keeps_all_witness:
  "detail_fails html_bs4 example_site (ascii ''https://www.linkoping.se/nyheter/bro'') () \<and>
   (\<exists>new. fst (scrape_loop sample_unicode html_bs4 toy_digest example_site
             [\<lparr>item_title = ascii ''Bron rustas'', item_date_raw = ascii ''32 augusti 2024'',
               item_url = ascii ''https://www.linkoping.se/nyheter/bro''\<rparr>,
              \<lparr>item_title = ascii ''Ny park'', item_date_raw = ascii ''2024-08-28T10:15'',
               item_url = ascii ''https://www.linkoping.se/nyheter/park''\<rparr>] [] ()) = Inr new \<and>
      map article_url new = [ascii ''https://www.linkoping.se/nyheter/bro'',
                             ascii ''https://www.linkoping.se/nyheter/park''] \<and>
      map article_content new = [[], ascii ''Parken oppnar i maj.''])"
proof -
  let ?items = "[\<lparr>item_title = ascii ''Bron rustas'', item_date_raw = ascii ''32 augusti 2024'',
               item_url = ascii ''https://www.linkoping.se/nyheter/bro''\<rparr>,
              \<lparr>item_title = ascii ''Ny park'', item_date_raw = ascii ''2024-08-28T10:15'',
               item_url = ascii ''https://www.linkoping.se/nyheter/park''\<rparr>]"
  have enc: "\<forall>it \<in> set ?items. utf8_encodable (item_url it)"
    by (simp add: utf8_encodable_def ascii_def)
  have f: "map fst (fst (fetched html_bs4 example_site (map item_url ?items) ())) =
      [[], ascii ''Parken oppnar i maj.'']"
    by code_simp
  have d: "detail_fails html_bs4 example_site (ascii ''https://www.linkoping.se/nyheter/bro'') ()"
    by code_simp
  obtain r w' where run: "scrape_loop sample_unicode html_bs4 toy_digest example_site ?items [] () = (r, w')"
    by (cases "scrape_loop sample_unicode html_bs4 toy_digest example_site ?items [] ()")
  from scrape_loop_keeps_all [OF run, THEN conjunct2, THEN conjunct1, THEN mp, OF enc]
  obtain new where "r = Inr ([] @ new)" "map article_url new = map item_url ?items"
    "map article_content new = map fst (fst (fetched html_bs4 example_site (map item_url ?items) ()))"
    by blast
  with f run d show ?thesis by simp
qed

text \<open>
  Claim C9.  Every record a scrape run returns has a date that is the empty text or a
  text of the shape \<open>YYYY-MM-DD\<close> that denotes a valid calendar date.
\<close>

theorem scrape_dates:
  assumes "scrape U L md5 http_get w = (Inr rs, w')" and "a \<in> set rs"
  shows "article_date a = [] \<or> iso_shape (article_date a) \<and> iso_valid (article_date a)"
proof -
  from scrape_Inr [OF assms(1)] assms(2) obtain it where "record_ok md5 it a"
    using record_ok_member by blast
  then show ?thesis by (simp add: record_ok_def)
qed

theorem scrape_dates_witness:
  "iso_shape (ascii ''2024-08-28'') \<and> iso_valid (ascii ''2024-08-28'') \<and>
   map article_date (projr (fst (scrape sample_unicode html_bs4 toy_digest example_site ()))) =
     [ascii ''2024-08-28'', []]"
proof -
  let ?a = "\<lparr>article_id = ascii ''md5:https://www.linkoping.se/nyheter/park'',
             article_title = ascii ''Ny park'', article_date = ascii ''2024-08-28'',
             article_url = ascii ''https://www.linkoping.se/nyheter/park'',
             article_content = ascii ''Parken oppnar i maj.''\<rparr>"
  let ?b = "\<lparr>article_id = ascii ''md5:https://www.linkoping.se/nyheter/bro'',
               article_title = ascii ''Bron rustas'', article_date = [],
               article_url = ascii ''https://www.linkoping.se/nyheter/bro'',
               article_content = []\<rparr>"
  have a: "?a \<in> set [?a, ?b]" by simp
  have ne: "ascii ''2024-08-28'' \<noteq> []" by (simp add: ascii_def)
  from scrape_dates [OF example_scrape a] ne
  have "iso_shape (ascii ''2024-08-28'') \<and> iso_valid (ascii ''2024-08-28'')" by simp
  then show ?thesis by (simp add: example_scrape)
qed

end
